theory Spec2Isabelle
  imports Main
begin

section \<open>Tokens, diagnostics and syntax-tree nodes\<close>

text \<open>
  The embedding follows \<open>analisador_sintatico_gui.py\<close>. Python strings are modelled as
  HOL strings, so a source character is a code point below 256; the non-ASCII letters of
  the Portuguese messages are written by their code point (\<open>CHR 0xE3\<close> is a tilde).
  Line and column numbers are Python integers (\<open>int\<close>): the start column computed by
  \<open>add_token\<close> can be zero or negative.
\<close>

datatype TokenType =
    NUMBER | IDENTIFIER | STRING
  | PROGRAM | VAR | INTEGER | BOOLEAN | BEGIN | END | READ | READLN | WRITE | WRITELN
  | IF | THEN | ELSE | WHILE | DO
  | PLUS | MINUS | MULTIPLY | DIVIDE
  | ASSIGN | EQUAL | NOT_EQUAL | LESS_THAN | LESS_EQUAL | GREATER_THAN | GREATER_EQUAL
  | SEMICOLON | COMMA | COLON | LEFT_PAREN | RIGHT_PAREN | DOT
  | NEWLINE | EOF

text \<open>The string each member of the enumeration carries (\<open>token_type.value\<close>).\<close>

primrec TokenType_value :: "TokenType \<Rightarrow> string" where
  "TokenType_value NUMBER = ''num''"
| "TokenType_value IDENTIFIER = ''id''"
| "TokenType_value STRING = ''str''"
| "TokenType_value PROGRAM = ''program''"
| "TokenType_value VAR = ''var''"
| "TokenType_value INTEGER = ''integer''"
| "TokenType_value BOOLEAN = ''boolean''"
| "TokenType_value BEGIN = ''begin''"
| "TokenType_value END = ''end''"
| "TokenType_value READ = ''read''"
| "TokenType_value READLN = ''readln''"
| "TokenType_value WRITE = ''write''"
| "TokenType_value WRITELN = ''writeln''"
| "TokenType_value IF = ''if''"
| "TokenType_value THEN = ''then''"
| "TokenType_value ELSE = ''else''"
| "TokenType_value WHILE = ''while''"
| "TokenType_value DO = ''do''"
| "TokenType_value PLUS = ''+''"
| "TokenType_value MINUS = ''-''"
| "TokenType_value MULTIPLY = ''*''"
| "TokenType_value DIVIDE = ''/''"
| "TokenType_value ASSIGN = '':=''"
| "TokenType_value EQUAL = ''=''"
| "TokenType_value NOT_EQUAL = ''<>''"
| "TokenType_value LESS_THAN = ''<''"
| "TokenType_value LESS_EQUAL = ''<=''"
| "TokenType_value GREATER_THAN = ''>''"
| "TokenType_value GREATER_EQUAL = ''>=''"
| "TokenType_value SEMICOLON = '';''"
| "TokenType_value COMMA = '',''"
| "TokenType_value COLON = '':''"
| "TokenType_value LEFT_PAREN = ''(''"
| "TokenType_value RIGHT_PAREN = '')''"
| "TokenType_value DOT = ''.''"
| "TokenType_value NEWLINE = ''NEWLINE''"
| "TokenType_value EOF = ''EOF''"

datatype Token =
  Token (tok_type: TokenType) (tok_value: string) (tok_line: int) (tok_column: int)

text \<open>Python's \<open>str\<close> of an integer, used where a message interpolates a line number.\<close>

fun str_nat :: "nat \<Rightarrow> string" where
  "str_nat n =
     (if n < 10 then [char_of (48 + n)]
      else str_nat (n div 10) @ [char_of (48 + n mod 10)])"

definition str_int :: "int \<Rightarrow> string" where
  "str_int i = (if i < 0 then ''-'' @ str_nat (nat (- i)) else str_nat (nat i))"

text \<open>
  \<open>LexicalError(message, line, column)\<close>; \<open>LexicalError_str\<close> is the text handed to
  the base class \<open>Exception\<close>.
\<close>

datatype LexicalError =
  LexicalError (lex_message: string) (lex_line: int) (lex_column: int)

definition LexicalError_str :: "LexicalError \<Rightarrow> string" where
  "LexicalError_str e =
     ''Erro l'' @ [CHR 0xE9] @ ''xico na linha '' @ str_int (lex_line e)
     @ '', coluna '' @ str_int (lex_column e) @ '': '' @ lex_message e"

text \<open>
  \<open>SyntaxError(message, token=None)\<close>. A \<open>Token\<close> object defines neither
  \<open>__bool__\<close> nor \<open>__len__\<close>, so \<open>if token\<close> holds exactly when a token was given.
\<close>

datatype SyntaxError =
  SyntaxError (syn_message: string) (syn_token: "Token option")

definition SyntaxError_str :: "SyntaxError \<Rightarrow> string" where
  "SyntaxError_str e =
     (case syn_token e of
        Some token \<Rightarrow>
          ''Erro sint'' @ [CHR 0xE1] @ ''tico: '' @ syn_message e
          @ '' (Token: '' @ TokenType_value (tok_type token)
          @ '', Linha: '' @ str_int (tok_line token) @ '')''
      | None \<Rightarrow> ''Erro sint'' @ [CHR 0xE1] @ ''tico: '' @ syn_message e)"

datatype TreeNode =
  TreeNode (symbol: string) (token: "Token option") (children: "TreeNode list")

definition add_child :: "TreeNode \<Rightarrow> TreeNode \<Rightarrow> TreeNode" where
  "add_child node child = TreeNode (symbol node) (token node) (children node @ [child])"

section \<open>The lexer\<close>

record Lexer =
  source :: string
  tokens :: "Token list"
  current :: nat
  line :: int
  column :: int

definition keywords_tbl :: "string \<rightharpoonup> TokenType" where
  "keywords_tbl = map_of
     [(''program'', PROGRAM), (''var'', VAR), (''integer'', INTEGER), (''boolean'', BOOLEAN),
      (''begin'', BEGIN), (''end'', END), (''read'', READ), (''readln'', READLN),
      (''write'', WRITE), (''writeln'', WRITELN), (''if'', IF), (''then'', THEN),
      (''else'', ELSE), (''while'', WHILE), (''do'', DO)]"

definition single_char_tokens :: "char \<rightharpoonup> TokenType" where
  "single_char_tokens = map_of
     [(CHR ''+'', PLUS), (CHR ''-'', MINUS), (CHR ''*'', MULTIPLY), (CHR ''/'', DIVIDE),
      (CHR ''='', EQUAL), (CHR ''<'', LESS_THAN), (CHR ''>'', GREATER_THAN),
      (CHR '';'', SEMICOLON), (CHR '','', COMMA), (CHR '':'', COLON),
      (CHR ''('', LEFT_PAREN), (CHR '')'', RIGHT_PAREN), (CHR ''.'', DOT)]"

definition double_char_tokens :: "string \<rightharpoonup> TokenType" where
  "double_char_tokens = map_of
     [('':='', ASSIGN), (''<='', LESS_EQUAL), (''>='', GREATER_EQUAL), (''<>'', NOT_EQUAL)]"

definition Lexer_init :: "string \<Rightarrow> Lexer" where
  "Lexer_init source_code =
     \<lparr>source = source_code, tokens = [], current = 0, line = 1, column = 1\<rparr>"

text \<open>
  The character classes of Python's \<open>str.isdigit\<close>, \<open>str.isalpha\<close>, \<open>str.isalnum\<close>
  and the mapping of \<open>str.lower\<close>, on the code points below 256.
\<close>

definition isdigit :: "char \<Rightarrow> bool" where
  "isdigit c = (let n = (of_char c :: nat) in (48 \<le> n \<and> n \<le> 57) \<or> n = 178 \<or> n = 179 \<or> n = 185)"

definition isalpha :: "char \<Rightarrow> bool" where
  "isalpha c =
     (let n = (of_char c :: nat) in
        (65 \<le> n \<and> n \<le> 90) \<or> (97 \<le> n \<and> n \<le> 122) \<or> n = 170 \<or> n = 181 \<or> n = 186
        \<or> (192 \<le> n \<and> n \<le> 214) \<or> (216 \<le> n \<and> n \<le> 246) \<or> 248 \<le> n)"

definition isalnum :: "char \<Rightarrow> bool" where
  "isalnum c =
     (isalpha c \<or> isdigit c \<or> (let n = (of_char c :: nat) in 188 \<le> n \<and> n \<le> 190))"

definition lower_char :: "char \<Rightarrow> char" where
  "lower_char c =
     (let n = (of_char c :: nat) in
        if (65 \<le> n \<and> n \<le> 90) \<or> (192 \<le> n \<and> n \<le> 214) \<or> (216 \<le> n \<and> n \<le> 222)
        then char_of (n + 32) else c)"

definition lower :: "string \<Rightarrow> string" where
  "lower s = map lower_char s"

definition is_at_end :: "Lexer \<Rightarrow> bool" where
  "is_at_end lx = (current lx \<ge> length (source lx))"

definition advance :: "Lexer \<Rightarrow> char \<times> Lexer" where
  "advance lx =
     (if \<not> is_at_end lx then
        (let ch = source lx ! current lx;
             lx1 = lx\<lparr>current := current lx + 1\<rparr>
         in if ch = CHR 0x0A
            then (ch, lx1\<lparr>line := line lx1 + 1, column := 1\<rparr>)
            else (ch, lx1\<lparr>column := column lx1 + 1\<rparr>))
      else (CHR 0x00, lx))"

definition peek :: "Lexer \<Rightarrow> char" where
  "peek lx = (if is_at_end lx then CHR 0x00 else source lx ! current lx)"

definition peek_next :: "Lexer \<Rightarrow> char" where
  "peek_next lx =
     (if current lx + 1 \<ge> length (source lx) then CHR 0x00
      else source lx ! (current lx + 1))"

definition add_token :: "TokenType \<Rightarrow> string \<Rightarrow> Lexer \<Rightarrow> Lexer" where
  "add_token token_type v lx =
     lx\<lparr>tokens := tokens lx @ [Token token_type v (line lx) (column lx - int (length v))]\<rparr>"

text \<open>
  The measure of every scanning loop: the characters not yet consumed.
\<close>

definition remaining :: "Lexer \<Rightarrow> nat" where
  "remaining lx = length (source lx) - current lx"

lemma advance_remaining:
  "\<not> is_at_end lx \<Longrightarrow> remaining (snd (advance lx)) < remaining lx"
  by (auto simp: advance_def is_at_end_def remaining_def Let_def)

lemma advance_line_remaining:
  "\<not> is_at_end lx \<Longrightarrow>
   remaining (snd (advance (lx\<lparr>line := l, column := c\<rparr>))) < remaining lx"
  by (auto simp: advance_def is_at_end_def remaining_def Let_def)

lemma peek_not_at_end: "peek lx \<noteq> CHR 0x00 \<Longrightarrow> \<not> is_at_end lx"
  by (auto simp: peek_def)

lemma isdigit_not_at_end: "isdigit (peek lx) \<Longrightarrow> \<not> is_at_end lx"
  by (rule peek_not_at_end) (auto simp: isdigit_def)

lemma isalnum_not_at_end: "isalnum (peek lx) \<or> peek lx = CHR ''_'' \<Longrightarrow> \<not> is_at_end lx"
  by (rule peek_not_at_end) (auto simp: isalnum_def isalpha_def isdigit_def)

text \<open>
  \<open>scan_string\<close>: runs after the opening quote has been consumed. The loop counts a
  newline itself and then calls \<open>advance\<close>, which counts it again.
\<close>

function scan_string_loop :: "string \<Rightarrow> Lexer \<Rightarrow> string \<times> Lexer" where
  "scan_string_loop v lx =
     (if peek lx \<noteq> CHR 0x22 \<and> \<not> is_at_end lx then
        (let lx1 = (if peek lx = CHR 0x0A then lx\<lparr>line := line lx + 1, column := 1\<rparr> else lx);
             r = advance lx1
         in scan_string_loop (v @ [fst r]) (snd r))
      else (v, lx))"
  by pat_completeness auto
termination
  by (relation "measure (\<lambda>(v, lx). remaining lx)")
     (auto simp: advance_remaining advance_line_remaining)

declare scan_string_loop.simps [simp del]

definition scan_string :: "Lexer \<Rightarrow> (LexicalError + string) \<times> Lexer" where
  "scan_string lx =
     (let r = scan_string_loop [] lx; v = fst r; lx1 = snd r
      in if is_at_end lx1
         then (Inl (LexicalError (''String n'' @ [CHR 0xE3] @ ''o terminada'')
                      (line lx1) (column lx1)), lx1)
         else (Inr v, snd (advance lx1)))"

function scan_number_loop :: "string \<Rightarrow> Lexer \<Rightarrow> string \<times> Lexer" where
  "scan_number_loop v lx =
     (if isdigit (peek lx) then
        (let r = advance lx in scan_number_loop (v @ [fst r]) (snd r))
      else (v, lx))"
  by pat_completeness auto
termination
  by (relation "measure (\<lambda>(v, lx). remaining lx)")
     (auto simp: advance_remaining isdigit_not_at_end)

declare scan_number_loop.simps [simp del]

definition scan_number :: "Lexer \<Rightarrow> string \<times> Lexer" where
  "scan_number lx = scan_number_loop [] lx"

function scan_identifier_loop :: "string \<Rightarrow> Lexer \<Rightarrow> string \<times> Lexer" where
  "scan_identifier_loop v lx =
     (if isalnum (peek lx) \<or> peek lx = CHR ''_'' then
        (let r = advance lx in scan_identifier_loop (v @ [fst r]) (snd r))
      else (v, lx))"
  by pat_completeness auto
termination
  by (relation "measure (\<lambda>(v, lx). remaining lx)")
     (auto simp: advance_remaining isalnum_not_at_end)

declare scan_identifier_loop.simps [simp del]

definition scan_identifier :: "Lexer \<Rightarrow> string \<times> Lexer" where
  "scan_identifier lx = scan_identifier_loop [] lx"

text \<open>The loop of \<open>tokenize\<close> that skips the body of a comment.\<close>

function skip_comment :: "Lexer \<Rightarrow> Lexer" where
  "skip_comment lx =
     (if peek lx \<noteq> CHR ''}'' \<and> \<not> is_at_end lx then skip_comment (snd (advance lx)) else lx)"
  by pat_completeness auto
termination
  by (relation "measure remaining") (auto simp: advance_remaining)

declare skip_comment.simps [simp del]

text \<open>One iteration of the main loop of \<open>tokenize\<close>; the lexer is not at the end.\<close>

definition tokenize_step :: "Lexer \<Rightarrow> (LexicalError + unit) \<times> Lexer" where
  "tokenize_step lx =
     (let ch = peek lx in
      if ch \<in> {CHR '' '', CHR 0x09, CHR 0x0D} then (Inr (), snd (advance lx))
      else if ch = CHR 0x0A then
        (Inr (), snd (advance (add_token NEWLINE [CHR 0x5C, CHR ''n''] lx)))
      else if ch = CHR ''{'' then
        (let lx1 = skip_comment (snd (advance lx)) in
         if is_at_end lx1
         then (Inl (LexicalError (''Coment'' @ [CHR 0xE1] @ ''rio n'' @ [CHR 0xE3] @ ''o terminado'')
                      (line lx1) (column lx1)), lx1)
         else (Inr (), snd (advance lx1)))
      else if ch = CHR 0x22 then
        (case scan_string (snd (advance lx)) of
           (Inl e, lx1) \<Rightarrow> (Inl e, lx1)
         | (Inr string_value, lx1) \<Rightarrow> (Inr (), add_token STRING string_value lx1))
      else if isdigit ch then
        (let r = scan_number lx in (Inr (), add_token NUMBER (fst r) (snd r)))
      else if isalpha ch \<or> ch = CHR ''_'' then
        (let r = scan_identifier lx;
             ident = fst r;
             lower_ident = lower ident;
             token_type = (case keywords_tbl lower_ident of Some t \<Rightarrow> t | None \<Rightarrow> IDENTIFIER)
         in (Inr (), add_token token_type ident (snd r)))
      else
        (let two = [ch, peek_next lx] in
         case double_char_tokens two of
           Some t2 \<Rightarrow> (Inr (), add_token t2 two (snd (advance (snd (advance lx)))))
         | None \<Rightarrow>
             (case single_char_tokens ch of
                Some t1 \<Rightarrow> (Inr (), add_token t1 [ch] (snd (advance lx)))
              | None \<Rightarrow>
                  (let r = advance lx; unknown = fst r; lx1 = snd r
                   in (Inl (LexicalError
                              (''Caractere desconhecido: '' @ [CHR 0x27] @ [unknown] @ [CHR 0x27])
                              (line lx1) (column lx1 - 1)), lx1)))))"

lemma remaining_add_token [simp]: "remaining (add_token t v lx) = remaining lx"
  by (simp add: add_token_def remaining_def)

lemma is_at_end_add_token [simp]: "is_at_end (add_token t v lx) = is_at_end lx"
  by (simp add: add_token_def is_at_end_def)

lemma source_add_token [simp]: "source (add_token t v lx) = source lx"
  by (simp add: add_token_def)

lemma source_advance [simp]: "source (snd (advance lx)) = source lx"
  by (simp add: advance_def Let_def)

lemma remaining_advance_le: "remaining (snd (advance lx)) \<le> remaining lx"
  by (auto simp: advance_def remaining_def Let_def)

lemma is_at_end_remaining: "is_at_end lx \<longleftrightarrow> remaining lx = 0"
  by (auto simp: is_at_end_def remaining_def)

lemma source_scan_string_loop [simp]: "source (snd (scan_string_loop v lx)) = source lx"
  by (induction v lx rule: scan_string_loop.induct)
     (subst scan_string_loop.simps, simp add: Let_def)

lemma remaining_scan_string_loop: "remaining (snd (scan_string_loop v lx)) \<le> remaining lx"
proof (induction v lx rule: scan_string_loop.induct)
  case (1 v lx)
  show ?case
  proof (cases "peek lx \<noteq> CHR 0x22 \<and> \<not> is_at_end lx")
    case True
    let ?lx1 = "if peek lx = CHR 0x0A then lx\<lparr>line := line lx + 1, column := 1\<rparr> else lx"
    have "remaining (snd (scan_string_loop (v @ [fst (advance ?lx1)]) (snd (advance ?lx1))))
          \<le> remaining (snd (advance ?lx1))"
      using "1.IH" [OF True refl refl] .
    also have "\<dots> \<le> remaining ?lx1" by (rule remaining_advance_le)
    also have "\<dots> = remaining lx" by (simp add: remaining_def)
    finally show ?thesis using True by (subst scan_string_loop.simps) (simp add: Let_def)
  next
    case False
    then show ?thesis by (subst scan_string_loop.simps) auto
  qed
qed

lemma source_scan_number_loop [simp]: "source (snd (scan_number_loop v lx)) = source lx"
  by (induction v lx rule: scan_number_loop.induct)
     (subst scan_number_loop.simps, simp add: Let_def)

lemma remaining_scan_number_loop: "remaining (snd (scan_number_loop v lx)) \<le> remaining lx"
proof (induction v lx rule: scan_number_loop.induct)
  case (1 v lx)
  show ?case
  proof (cases "isdigit (peek lx)")
    case True
    have "remaining (snd (scan_number_loop (v @ [fst (advance lx)]) (snd (advance lx))))
          \<le> remaining (snd (advance lx))"
      using "1.IH" [OF True refl] .
    also have "\<dots> \<le> remaining lx" by (rule remaining_advance_le)
    finally show ?thesis using True by (subst scan_number_loop.simps) (simp add: Let_def)
  next
    case False
    then show ?thesis by (subst scan_number_loop.simps) auto
  qed
qed

lemma remaining_scan_number:
  assumes "isdigit (peek lx)"
  shows "remaining (snd (scan_number lx)) < remaining lx"
proof -
  have "remaining (snd (scan_number_loop ([] @ [fst (advance lx)]) (snd (advance lx))))
        \<le> remaining (snd (advance lx))"
    by (rule remaining_scan_number_loop)
  also have "\<dots> < remaining lx"
    using assms by (simp add: advance_remaining isdigit_not_at_end)
  finally show ?thesis
    using assms unfolding scan_number_def by (subst scan_number_loop.simps) (simp add: Let_def)
qed

lemma source_scan_identifier_loop [simp]:
  "source (snd (scan_identifier_loop v lx)) = source lx"
  by (induction v lx rule: scan_identifier_loop.induct)
     (subst scan_identifier_loop.simps, simp add: Let_def)

lemma remaining_scan_identifier_loop:
  "remaining (snd (scan_identifier_loop v lx)) \<le> remaining lx"
proof (induction v lx rule: scan_identifier_loop.induct)
  case (1 v lx)
  show ?case
  proof (cases "isalnum (peek lx) \<or> peek lx = CHR ''_''")
    case True
    have "remaining (snd (scan_identifier_loop (v @ [fst (advance lx)]) (snd (advance lx))))
          \<le> remaining (snd (advance lx))"
      using "1.IH" [OF True refl] .
    also have "\<dots> \<le> remaining lx" by (rule remaining_advance_le)
    finally show ?thesis using True by (subst scan_identifier_loop.simps) (simp add: Let_def)
  next
    case False
    then show ?thesis by (subst scan_identifier_loop.simps) auto
  qed
qed

lemma remaining_scan_identifier:
  assumes "isalnum (peek lx) \<or> peek lx = CHR ''_''"
  shows "remaining (snd (scan_identifier lx)) < remaining lx"
proof -
  have "remaining (snd (scan_identifier_loop ([] @ [fst (advance lx)]) (snd (advance lx))))
        \<le> remaining (snd (advance lx))"
    by (rule remaining_scan_identifier_loop)
  also have "\<dots> < remaining lx"
    using assms by (simp add: advance_remaining isalnum_not_at_end)
  finally show ?thesis
    using assms unfolding scan_identifier_def
    by (subst scan_identifier_loop.simps) (simp add: Let_def)
qed

lemma source_skip_comment [simp]: "source (skip_comment lx) = source lx"
  by (induction lx rule: skip_comment.induct) (subst skip_comment.simps, simp)

lemma remaining_skip_comment: "remaining (skip_comment lx) \<le> remaining lx"
proof (induction lx rule: skip_comment.induct)
  case (1 lx)
  show ?case
  proof (cases "peek lx \<noteq> CHR ''}'' \<and> \<not> is_at_end lx")
    case True
    have "remaining (skip_comment (snd (advance lx))) \<le> remaining (snd (advance lx))"
      using "1.IH" [OF True] .
    also have "\<dots> \<le> remaining lx" by (rule remaining_advance_le)
    finally show ?thesis using True by (subst skip_comment.simps) simp
  next
    case False
    then show ?thesis by (subst skip_comment.simps) auto
  qed
qed

lemma source_scan_string [simp]: "source (snd (scan_string lx)) = source lx"
  by (simp add: scan_string_def Let_def)

lemma remaining_scan_string: "remaining (snd (scan_string lx)) \<le> remaining lx"
proof -
  have "remaining (snd (advance (snd (scan_string_loop [] lx))))
        \<le> remaining (snd (scan_string_loop [] lx))"
    by (rule remaining_advance_le)
  then show ?thesis
    using remaining_scan_string_loop [of "[]" lx]
    by (auto simp: scan_string_def Let_def)
qed

lemma tokenize_step_cases [case_names ws nl comment_open comment string_open string number ident double single unknown]:
  assumes "peek lx \<in> {CHR '' '', CHR 0x09, CHR 0x0D} \<Longrightarrow>
             tokenize_step lx = (Inr (), snd (advance lx)) \<Longrightarrow> P"
    and "peek lx = CHR 0x0A \<Longrightarrow>
             tokenize_step lx = (Inr (), snd (advance (add_token NEWLINE [CHR 0x5C, CHR ''n''] lx))) \<Longrightarrow> P"
    and "\<And>lx1. peek lx = CHR ''{'' \<Longrightarrow> lx1 = skip_comment (snd (advance lx)) \<Longrightarrow> is_at_end lx1 \<Longrightarrow>
             tokenize_step lx =
               (Inl (LexicalError (''Coment'' @ [CHR 0xE1] @ ''rio n'' @ [CHR 0xE3] @ ''o terminado'')
                       (line lx1) (column lx1)), lx1) \<Longrightarrow> P"
    and "\<And>lx1. peek lx = CHR ''{'' \<Longrightarrow> lx1 = skip_comment (snd (advance lx)) \<Longrightarrow> \<not> is_at_end lx1 \<Longrightarrow>
             tokenize_step lx = (Inr (), snd (advance lx1)) \<Longrightarrow> P"
    and "\<And>e lx1. peek lx = CHR 0x22 \<Longrightarrow> scan_string (snd (advance lx)) = (Inl e, lx1) \<Longrightarrow>
             tokenize_step lx = (Inl e, lx1) \<Longrightarrow> P"
    and "\<And>v lx1. peek lx = CHR 0x22 \<Longrightarrow> scan_string (snd (advance lx)) = (Inr v, lx1) \<Longrightarrow>
             tokenize_step lx = (Inr (), add_token STRING v lx1) \<Longrightarrow> P"
    and "isdigit (peek lx) \<Longrightarrow>
             tokenize_step lx = (Inr (), add_token NUMBER (fst (scan_number lx)) (snd (scan_number lx))) \<Longrightarrow> P"
    and "\<And>ident. isalpha (peek lx) \<or> peek lx = CHR ''_'' \<Longrightarrow> ident = fst (scan_identifier lx) \<Longrightarrow>
             tokenize_step lx =
               (Inr (), add_token (case keywords_tbl (lower ident) of Some t \<Rightarrow> t | None \<Rightarrow> IDENTIFIER)
                          ident (snd (scan_identifier lx))) \<Longrightarrow> P"
    and "\<And>t2. double_char_tokens [peek lx, peek_next lx] = Some t2 \<Longrightarrow>
             tokenize_step lx =
               (Inr (), add_token t2 [peek lx, peek_next lx] (snd (advance (snd (advance lx))))) \<Longrightarrow> P"
    and "\<And>t1. single_char_tokens (peek lx) = Some t1 \<Longrightarrow>
             tokenize_step lx = (Inr (), add_token t1 [peek lx] (snd (advance lx))) \<Longrightarrow> P"
    and "\<And>lx1. lx1 = snd (advance lx) \<Longrightarrow>
             tokenize_step lx =
               (Inl (LexicalError
                       (''Caractere desconhecido: '' @ [CHR 0x27] @ [fst (advance lx)] @ [CHR 0x27])
                       (line lx1) (column lx1 - 1)), lx1) \<Longrightarrow> P"
  shows P
proof -
  consider (a) "peek lx \<in> {CHR '' '', CHR 0x09, CHR 0x0D}"
    | (b) "peek lx \<notin> {CHR '' '', CHR 0x09, CHR 0x0D}" "peek lx = CHR 0x0A"
    | (c) "peek lx \<notin> {CHR '' '', CHR 0x09, CHR 0x0D}" "peek lx \<noteq> CHR 0x0A" "peek lx = CHR ''{''"
    | (d) "peek lx \<notin> {CHR '' '', CHR 0x09, CHR 0x0D}" "peek lx \<noteq> CHR 0x0A" "peek lx \<noteq> CHR ''{''"
          "peek lx = CHR 0x22"
    | (e) "peek lx \<notin> {CHR '' '', CHR 0x09, CHR 0x0D}" "peek lx \<noteq> CHR 0x0A" "peek lx \<noteq> CHR ''{''"
          "peek lx \<noteq> CHR 0x22" "isdigit (peek lx)"
    | (f) "peek lx \<notin> {CHR '' '', CHR 0x09, CHR 0x0D}" "peek lx \<noteq> CHR 0x0A" "peek lx \<noteq> CHR ''{''"
          "peek lx \<noteq> CHR 0x22" "\<not> isdigit (peek lx)" "isalpha (peek lx) \<or> peek lx = CHR ''_''"
    | (g) "peek lx \<notin> {CHR '' '', CHR 0x09, CHR 0x0D}" "peek lx \<noteq> CHR 0x0A" "peek lx \<noteq> CHR ''{''"
          "peek lx \<noteq> CHR 0x22" "\<not> isdigit (peek lx)" "\<not> (isalpha (peek lx) \<or> peek lx = CHR ''_'')"
    by blast
  then show P
  proof cases
    case a
    then show ?thesis by (intro assms(1)) (simp_all add: tokenize_step_def)
  next
    case b
    then show ?thesis by (intro assms(2)) (simp_all add: tokenize_step_def)
  next
    case c
    show ?thesis
    proof (cases "is_at_end (skip_comment (snd (advance lx)))")
      case True
      with c show ?thesis by (intro assms(3) [OF _ refl]) (simp_all add: tokenize_step_def Let_def)
    next
      case False
      with c show ?thesis by (intro assms(4) [OF _ refl]) (simp_all add: tokenize_step_def Let_def)
    qed
  next
    case d
    obtain r lx1 where r: "scan_string (snd (advance lx)) = (r, lx1)" by (cases "scan_string (snd (advance lx))")
    show ?thesis
    proof (cases r)
      case (Inl e)
      with d r show ?thesis by (intro assms(5) [of e lx1]) (simp_all add: tokenize_step_def)
    next
      case (Inr v)
      with d r show ?thesis by (intro assms(6) [of v lx1]) (simp_all add: tokenize_step_def)
    qed
  next
    case e
    then show ?thesis by (intro assms(7)) (simp_all add: tokenize_step_def Let_def)
  next
    case f
    then show ?thesis by (intro assms(8) [OF _ refl]) (simp_all add: tokenize_step_def Let_def)
  next
    case g
    show ?thesis
    proof (cases "double_char_tokens [peek lx, peek_next lx]")
      case (Some t2)
      with g show ?thesis by (intro assms(9) [of t2]) (simp_all add: tokenize_step_def Let_def)
    next
      case None
      note dn = None
      show ?thesis
      proof (cases "single_char_tokens (peek lx)")
        case (Some t1)
        with g dn show ?thesis by (intro assms(10) [of t1]) (simp_all add: tokenize_step_def Let_def)
      next
        case None
        with g dn show ?thesis by (intro assms(11) [OF refl]) (simp_all add: tokenize_step_def Let_def)
      qed
    qed
  qed
qed

lemma source_tokenize_step [simp]: "source (snd (tokenize_step lx)) = source lx"
proof (cases lx rule: tokenize_step_cases)
  case (string_open e lx1)
  then show ?thesis using source_scan_string [of "snd (advance lx)"] by simp
next
  case (string v lx1)
  then show ?thesis using source_scan_string [of "snd (advance lx)"] by simp
qed (simp_all add: scan_number_def scan_identifier_def)

lemma isalpha_isalnum: "isalpha c \<Longrightarrow> isalnum c"
  by (simp add: isalnum_def)

lemma remaining_tokenize_step:
  assumes "\<not> is_at_end lx" and "tokenize_step lx = (Inr u, lx1)"
  shows "remaining lx1 < remaining lx"
proof -
  note adv = advance_remaining [OF assms(1)]
  show ?thesis
  proof (cases lx rule: tokenize_step_cases)
    case ws
    with assms(2) adv show ?thesis by simp
  next
    case nl
    with assms(2) advance_remaining [of "add_token NEWLINE [CHR 0x5C, CHR ''n''] lx"] assms(1)
    show ?thesis by simp
  next
    case (comment_open lx2)
    with assms(2) show ?thesis by simp
  next
    case (comment lx2)
    with assms(2) remaining_advance_le [of lx2] remaining_skip_comment [of "snd (advance lx)"] adv
    show ?thesis by simp
  next
    case (string_open e lx2)
    with assms(2) show ?thesis by simp
  next
    case (string v lx2)
    with assms(2) remaining_scan_string [of "snd (advance lx)"] adv show ?thesis by auto
  next
    case number
    with assms(2) remaining_scan_number [of lx] show ?thesis by auto
  next
    case (ident i)
    with assms(2) remaining_scan_identifier [of lx] show ?thesis by (auto simp: isalpha_isalnum)
  next
    case (double t2)
    with assms(2) remaining_advance_le [of "snd (advance lx)"] adv show ?thesis by auto
  next
    case (single t1)
    with assms(2) adv show ?thesis by auto
  next
    case (unknown lx2)
    with assms(2) show ?thesis by simp
  qed
qed

function tokenize_loop :: "Lexer \<Rightarrow> (LexicalError + unit) \<times> Lexer" where
  "tokenize_loop lx =
     (if \<not> is_at_end lx then
        (case tokenize_step lx of
           (Inl e, lx1) \<Rightarrow> (Inl e, lx1)
         | (Inr u, lx1) \<Rightarrow> tokenize_loop lx1)
      else (Inr (), lx))"
  by pat_completeness auto
termination
  by (relation "measure remaining") (auto simp: remaining_tokenize_step)

declare tokenize_loop.simps [simp del]

definition tokenize :: "Lexer \<Rightarrow> (LexicalError + Token list) \<times> Lexer" where
  "tokenize lx =
     (let lx0 = lx\<lparr>tokens := [], current := 0, line := 1, column := 1\<rparr> in
      case tokenize_loop lx0 of
        (Inl e, lx1) \<Rightarrow> (Inl e, lx1)
      | (Inr u, lx1) \<Rightarrow> (let lx2 = add_token EOF [] lx1 in (Inr (tokens lx2), lx2)))"

lemma tokens_advance [simp]: "tokens (snd (advance lx)) = tokens lx"
  by (simp add: advance_def Let_def)

text \<open>
  The state of the main loop of \<open>tokenize\<close> after \<open>k\<close> iterations, when none of them
  raised and the input was not exhausted before.
\<close>

fun run_steps :: "nat \<Rightarrow> Lexer \<Rightarrow> Lexer option" where
  "run_steps 0 lx = Some lx"
| "run_steps (Suc k) lx =
     (if is_at_end lx then None
      else case tokenize_step lx of
             (Inl e, lx1) \<Rightarrow> None
           | (Inr u, lx1) \<Rightarrow> run_steps k lx1)"

lemma run_steps_tokenize_loop:
  "run_steps k lx = Some lx1 \<Longrightarrow> tokenize_loop lx = tokenize_loop lx1"
proof (induction k arbitrary: lx)
  case 0
  then show ?case by simp
next
  case (Suc k)
  from Suc.prems have ne: "\<not> is_at_end lx" by (auto split: if_splits)
  obtain r lx2 where st: "tokenize_step lx = (r, lx2)" by (cases "tokenize_step lx")
  with Suc.prems ne obtain u where r: "r = Inr u" and rest: "run_steps k lx2 = Some lx1"
    by (cases r) auto
  have "tokenize_loop lx = tokenize_loop lx2"
    using ne st r by (subst tokenize_loop.simps) simp
  with Suc.IH [OF rest] show ?case by simp
qed

lemma peek_in_rest: "\<not> is_at_end lx \<Longrightarrow> peek lx \<in> set (drop (current lx) (source lx))"
  by (auto simp: peek_def is_at_end_def in_set_conv_nth intro!: exI [of _ 0])

lemma rest_advance:
  "\<not> is_at_end lx \<Longrightarrow>
   set (drop (current (snd (advance lx))) (source (snd (advance lx))))
     \<subseteq> set (drop (current lx) (source lx))"
  using set_drop_subset_set_drop [of "current lx" "Suc (current lx)" "source lx"]
  by (auto simp: advance_def Let_def)

lemma scan_string_loop_unterminated:
  "CHR 0x22 \<notin> set (drop (current lx) (source lx)) \<Longrightarrow> is_at_end (snd (scan_string_loop v lx))"
proof (induction v lx rule: scan_string_loop.induct)
  case (1 v lx)
  show ?case
  proof (cases "is_at_end lx")
    case True
    then show ?thesis by (subst scan_string_loop.simps) simp
  next
    case False
    with "1.prems" peek_in_rest [of lx] have pk: "peek lx \<noteq> CHR 0x22" by auto
    let ?lx1 = "if peek lx = CHR 0x0A then lx\<lparr>line := line lx + 1, column := 1\<rparr> else lx"
    have ne1: "\<not> is_at_end ?lx1" using False by (simp add: is_at_end_def)
    have "set (drop (current (snd (advance ?lx1))) (source (snd (advance ?lx1))))
            \<subseteq> set (drop (current ?lx1) (source ?lx1))"
      by (rule rest_advance [OF ne1])
    also have "\<dots> = set (drop (current lx) (source lx))" by simp
    finally have "CHR 0x22 \<notin> set (drop (current (snd (advance ?lx1))) (source (snd (advance ?lx1))))"
      using "1.prems" by blast
    from "1.IH" [OF _ refl refl this] pk False
    show ?thesis by (subst scan_string_loop.simps) (simp add: Let_def)
  qed
qed

lemma tokens_add_token [simp]:
  "tokens (add_token t v lx) = tokens lx @ [Token t v (line lx) (column lx - int (length v))]"
  by (simp add: add_token_def)

lemma tokens_scan_string_loop [simp]: "tokens (snd (scan_string_loop v lx)) = tokens lx"
  by (induction v lx rule: scan_string_loop.induct)
     (subst scan_string_loop.simps, simp add: Let_def)

lemma tokens_scan_number_loop [simp]: "tokens (snd (scan_number_loop v lx)) = tokens lx"
  by (induction v lx rule: scan_number_loop.induct)
     (subst scan_number_loop.simps, simp add: Let_def)

lemma tokens_scan_identifier_loop [simp]: "tokens (snd (scan_identifier_loop v lx)) = tokens lx"
  by (induction v lx rule: scan_identifier_loop.induct)
     (subst scan_identifier_loop.simps, simp add: Let_def)

lemma tokens_skip_comment [simp]: "tokens (skip_comment lx) = tokens lx"
  by (induction lx rule: skip_comment.induct) (subst skip_comment.simps, simp)




lemma takeWhile_snoc:
  "takeWhile P (xs @ [x])
     = (if \<forall>y \<in> set xs. P y then (if P x then xs @ [x] else xs) else takeWhile P xs)"
  by (induction xs) auto

text \<open>The position at which a string literal that is never closed leaves the lexer.\<close>

lemma scan_string_loop_unterminated_pos:
  assumes "CHR 0x22 \<notin> set (drop (current lx) (source lx))"
  shows "line (snd (scan_string_loop v lx))
           = line lx + 2 * int (count_list (drop (current lx) (source lx)) (CHR 0x0A))
       \<and> column (snd (scan_string_loop v lx))
           = (if CHR 0x0A \<in> set (drop (current lx) (source lx))
              then 1 + int (length (takeWhile (\<lambda>c. c \<noteq> CHR 0x0A) (rev (drop (current lx) (source lx)))))
              else column lx + int (length (drop (current lx) (source lx))))"
  using assms
proof (induction v lx rule: scan_string_loop.induct)
  case (1 v lx)
  show ?case
  proof (cases "is_at_end lx")
    case True
    then show ?thesis by (subst (1 2) scan_string_loop.simps) (simp add: is_at_end_def)
  next
    case False
    then have lt: "current lx < length (source lx)" by (simp add: is_at_end_def)
    let ?c = "source lx ! current lx"
    let ?rest = "drop (Suc (current lx)) (source lx)"
    have dr: "drop (current lx) (source lx) = ?c # ?rest"
      using lt by (simp add: Cons_nth_drop_Suc)
    have pk: "peek lx = ?c" using False by (simp add: peek_def)
    from "1.prems" dr have nq: "?c \<noteq> CHR 0x22" and nr: "CHR 0x22 \<notin> set ?rest" by auto
    let ?lx1 = "if peek lx = CHR 0x0A then lx\<lparr>line := line lx + 1, column := 1\<rparr> else lx"
    let ?a = "snd (advance ?lx1)"
    have cond: "peek lx \<noteq> CHR 0x22 \<and> \<not> is_at_end lx" using nq pk False by simp
    have a: "current ?a = Suc (current lx)" "source ?a = source lx"
      using False by (simp_all add: advance_def Let_def is_at_end_def)
    have al: "line ?a = (if ?c = CHR 0x0A then line lx + 2 else line lx)"
      "column ?a = (if ?c = CHR 0x0A then 1 else column lx + 1)"
      using False pk by (simp_all add: advance_def Let_def is_at_end_def)
    have unf: "scan_string_loop v lx = scan_string_loop (v @ [fst (advance ?lx1)]) ?a"
      using cond by (subst scan_string_loop.simps) (simp add: Let_def)
    from nr a have "CHR 0x22 \<notin> set (drop (current ?a) (source ?a))" by simp
    from "1.IH" [OF cond refl refl this]
    have IH: "line (snd (scan_string_loop v lx)) = line ?a + 2 * int (count_list ?rest (CHR 0x0A))"
      "column (snd (scan_string_loop v lx))
         = (if CHR 0x0A \<in> set ?rest
            then 1 + int (length (takeWhile (\<lambda>c. c \<noteq> CHR 0x0A) (rev ?rest)))
            else column ?a + int (length ?rest))"
      unfolding unf [symmetric] a by simp_all
    have tw: "takeWhile (\<lambda>c. c \<noteq> CHR 0x0A) (rev ?rest @ [?c])
                = (if CHR 0x0A \<in> set ?rest then takeWhile (\<lambda>c. c \<noteq> CHR 0x0A) (rev ?rest)
                   else if ?c = CHR 0x0A then rev ?rest else rev ?rest @ [?c])"
      by (auto simp: takeWhile_snoc)
    show ?thesis
      unfolding dr using IH al tw by (auto simp del: drop_Suc_Cons)
  qed
qed








section \<open>The parser\<close>

text \<open>
  The parser object: the token list built by the constructor and the cursor
  \<open>current\<close>. The constructor drops the \<open>NEWLINE\<close> and \<open>EOF\<close> tokens of its
  argument and appends the end marker.
\<close>

record Parser =
  p_tokens :: "Token list"
  p_current :: nat

definition Parser_init :: "Token list \<Rightarrow> Parser" where
  "Parser_init toks =
     \<lparr>p_tokens = filter (\<lambda>t. tok_type t \<noteq> NEWLINE \<and> tok_type t \<noteq> EOF) toks
                 @ [Token EOF ''$'' (- 1) (- 1)],
      p_current = 0\<rparr>"

definition Parser_peek :: "Parser \<Rightarrow> Token" where
  "Parser_peek ps =
     (if p_current ps < length (p_tokens ps) then p_tokens ps ! p_current ps
      else last (p_tokens ps))"

definition Parser_advance :: "Parser \<Rightarrow> Token \<times> Parser" where
  "Parser_advance ps =
     (let token = Parser_peek ps in
      if p_current ps < length (p_tokens ps) - 1
      then (token, ps\<lparr>p_current := p_current ps + 1\<rparr>)
      else (token, ps))"

text \<open>
  A parsing procedure returns the node it built together with the parser state, or raises
  \<open>SyntaxError\<close>. The procedures call each other recursively and their loops are
  bounded by the input only, so each of them takes a supply of fuel: every call of a
  procedure and every iteration of a loop uses one unit, and \<open>None\<close> is the result of
  a run that has used up its supply. \<open>parse\<close> starts with six units for each token
  and two more; \<open>parse_total\<close> below shows that this supply is never used up, and
  \<open>parse_fuel_independent\<close> that a larger or smaller supply gives no other result.
  The bound of the interpreter on the depth of recursion is not part of the model.
\<close>

type_synonym 'a parse_result = "(SyntaxError + 'a \<times> Parser) option"

definition raise :: "SyntaxError \<Rightarrow> 'a parse_result" where
  "raise e = Some (Inl e)"

definition return :: "'a \<Rightarrow> Parser \<Rightarrow> 'a parse_result" where
  "return x ps = Some (Inr (x, ps))"

definition bind :: "'a parse_result \<Rightarrow> ('a \<Rightarrow> Parser \<Rightarrow> 'b parse_result) \<Rightarrow> 'b parse_result" where
  "bind r f =
     (case r of
        None \<Rightarrow> None
      | Some (Inl e) \<Rightarrow> Some (Inl e)
      | Some (Inr (x, ps)) \<Rightarrow> f x ps)"

definition expect :: "TokenType \<Rightarrow> Parser \<Rightarrow> Token parse_result" where
  "expect token_type ps =
     (let token = Parser_peek ps in
      if tok_type token \<noteq> token_type
      then raise (SyntaxError
                   (''Esperado '' @ [CHR 0x27] @ TokenType_value token_type @ [CHR 0x27]
                    @ '', encontrado '' @ [CHR 0x27] @ TokenType_value (tok_type token) @ [CHR 0x27])
                   (Some token))
      else (case Parser_advance ps of (t, ps1) \<Rightarrow> return t ps1))"

definition leaf :: "string \<Rightarrow> Token \<Rightarrow> TreeNode" where
  "leaf s t = TreeNode s (Some t) []"

definition node_of :: "string \<Rightarrow> TreeNode" where
  "node_of s = TreeNode s None []"

text \<open>
  Expressions. \<open>E_expr_loop\<close> and \<open>E_term_loop\<close> are the \<open>while\<close> loops of
  \<open>parse_E_expr\<close> and \<open>parse_E_term\<close>; their argument \<open>left\<close> is the operand built
  so far. \<open>parse_E_factor\<close> returns the node of a parenthesised expression without the
  parentheses.
\<close>

fun parse_E_expr :: "nat \<Rightarrow> Parser \<Rightarrow> TreeNode parse_result"
  and E_expr_loop :: "nat \<Rightarrow> TreeNode \<Rightarrow> Parser \<Rightarrow> TreeNode parse_result"
  and parse_E_term :: "nat \<Rightarrow> Parser \<Rightarrow> TreeNode parse_result"
  and E_term_loop :: "nat \<Rightarrow> TreeNode \<Rightarrow> Parser \<Rightarrow> TreeNode parse_result"
  and parse_E_factor :: "nat \<Rightarrow> Parser \<Rightarrow> TreeNode parse_result"
where
  "parse_E_expr 0 ps = None"
| "parse_E_expr (Suc n) ps =
     bind (parse_E_term n ps) (\<lambda>left ps.
     bind (E_expr_loop n left ps) (\<lambda>left ps.
     return (add_child (node_of ''E'') left) ps))"
| "E_expr_loop 0 left ps = None"
| "E_expr_loop (Suc n) left ps =
     (if tok_type (Parser_peek ps) \<in> set [PLUS, MINUS] then
        (case Parser_advance ps of (op_token, ps) \<Rightarrow>
           bind (parse_E_term n ps) (\<lambda>right ps.
           E_expr_loop n
             (add_child (add_child (add_child (node_of ''E'') left)
                (leaf (TokenType_value (tok_type op_token)) op_token)) right) ps))
      else return left ps)"
| "parse_E_term 0 ps = None"
| "parse_E_term (Suc n) ps =
     bind (parse_E_factor n ps) (\<lambda>left ps. E_term_loop n left ps)"
| "E_term_loop 0 left ps = None"
| "E_term_loop (Suc n) left ps =
     (if tok_type (Parser_peek ps) \<in> set [MULTIPLY, DIVIDE] then
        (case Parser_advance ps of (op_token, ps) \<Rightarrow>
           bind (parse_E_factor n ps) (\<lambda>right ps.
           E_term_loop n
             (add_child (add_child (add_child (node_of ''E'') left)
                (leaf (TokenType_value (tok_type op_token)) op_token)) right) ps))
      else return left ps)"
| "parse_E_factor 0 ps = None"
| "parse_E_factor (Suc n) ps =
     (let token = Parser_peek ps in
      if tok_type token = MINUS then
        (case Parser_advance ps of (minus_token, ps) \<Rightarrow>
           bind (parse_E_factor n ps) (\<lambda>operand ps.
           return (add_child (add_child (node_of ''E'') (leaf ''-'' minus_token)) operand) ps))
      else if tok_type token = LEFT_PAREN then
        (case Parser_advance ps of (lparen, ps) \<Rightarrow>
           bind (parse_E_expr n ps) (\<lambda>node ps.
           bind (expect RIGHT_PAREN ps) (\<lambda>rparen ps.
           return node ps)))
      else if tok_type token = IDENTIFIER then
        (case Parser_advance ps of (t, ps) \<Rightarrow> return (leaf ''id'' token) ps)
      else if tok_type token = NUMBER then
        (case Parser_advance ps of (t, ps) \<Rightarrow> return (leaf ''num'' token) ps)
      else raise (SyntaxError (''Esperado express'' @ [CHR 0xE3] @ ''o'') (Some token)))"

fun parse_E :: "nat \<Rightarrow> Parser \<Rightarrow> TreeNode parse_result" where
  "parse_E 0 ps = None"
| "parse_E (Suc n) ps = parse_E_expr n ps"

fun parse_B :: "nat \<Rightarrow> Parser \<Rightarrow> TreeNode parse_result" where
  "parse_B 0 ps = None"
| "parse_B (Suc n) ps =
     (let node = node_of ''B'' in
      bind (parse_E n ps) (\<lambda>left ps.
      let token = Parser_peek ps in
      if tok_type token \<in> set [LESS_THAN, LESS_EQUAL, GREATER_THAN, GREATER_EQUAL, EQUAL, NOT_EQUAL]
      then
        (case Parser_advance ps of (op_token, ps) \<Rightarrow>
           bind (parse_E n ps) (\<lambda>right ps.
           let node = add_child node left;
               node = add_child node (leaf (TokenType_value (tok_type op_token)) op_token);
               node = add_child node right
           in return node ps))
      else return (add_child node left) ps))"

definition parse_T :: "Parser \<Rightarrow> TreeNode parse_result" where
  "parse_T ps =
     (let token = Parser_peek ps in
      if tok_type token = INTEGER then
        (case Parser_advance ps of (t, ps) \<Rightarrow>
           return (add_child (node_of ''T'') (leaf ''integer'' token)) ps)
      else if tok_type token = BOOLEAN then
        (case Parser_advance ps of (t, ps) \<Rightarrow>
           return (add_child (node_of ''T'') (leaf ''boolean'' token)) ps)
      else raise (SyntaxError ''Esperado tipo (integer ou boolean)'' (Some token)))"

fun parse_I :: "nat \<Rightarrow> Parser \<Rightarrow> TreeNode parse_result" where
  "parse_I 0 ps = None"
| "parse_I (Suc n) ps =
     (let node = node_of ''I'' in
      bind (expect IDENTIFIER ps) (\<lambda>id_token ps.
      let node = add_child node (leaf ''id'' id_token) in
      if tok_type (Parser_peek ps) = COMMA then
        (case Parser_advance ps of (comma_token, ps) \<Rightarrow>
           let node = add_child node (leaf '','' comma_token) in
           bind (parse_I n ps) (\<lambda>rest ps. return (add_child node rest) ps))
      else return node ps))"

fun parse_V :: "nat \<Rightarrow> Parser \<Rightarrow> TreeNode parse_result" where
  "parse_V 0 ps = None"
| "parse_V (Suc n) ps =
     (let node = node_of ''V'' in
      bind (parse_I n ps) (\<lambda>ids ps.
      let node = add_child node ids in
      bind (expect COLON ps) (\<lambda>colon_token ps.
      let node = add_child node (leaf '':'' colon_token) in
      bind (parse_T ps) (\<lambda>ty ps.
      let node = add_child node ty in
      bind (expect SEMICOLON ps) (\<lambda>semi_token ps.
      let node = add_child node (leaf '';'' semi_token) in
      if tok_type (Parser_peek ps) = IDENTIFIER
      then bind (parse_V n ps) (\<lambda>rest ps. return (add_child node rest) ps)
      else return node ps)))))"

fun parse_D :: "nat \<Rightarrow> Parser \<Rightarrow> TreeNode parse_result" where
  "parse_D 0 ps = None"
| "parse_D (Suc n) ps =
     (let node = node_of ''D'' in
      bind (expect VAR ps) (\<lambda>var_token ps.
      let node = add_child node (leaf ''var'' var_token) in
      bind (parse_V n ps) (\<lambda>v ps. return (add_child node v) ps)))"

fun parse_A :: "nat \<Rightarrow> Parser \<Rightarrow> TreeNode parse_result" where
  "parse_A 0 ps = None"
| "parse_A (Suc n) ps =
     (let node = node_of ''A'' in
      bind (expect IDENTIFIER ps) (\<lambda>id_token ps.
      let node = add_child node (leaf ''id'' id_token) in
      bind (expect ASSIGN ps) (\<lambda>assign_token ps.
      let node = add_child node (leaf '':='' assign_token) in
      bind (parse_E n ps) (\<lambda>e ps. return (add_child node e) ps))))"

fun parse_R :: "nat \<Rightarrow> Parser \<Rightarrow> TreeNode parse_result" where
  "parse_R 0 ps = None"
| "parse_R (Suc n) ps =
     (let node = node_of ''R''; token = Parser_peek ps in
      if tok_type token = READ then
        (case Parser_advance ps of (read_token, ps) \<Rightarrow>
           let node = add_child node (leaf ''read'' read_token) in
           bind (expect LEFT_PAREN ps) (\<lambda>lparen_token ps.
           let node = add_child node (leaf ''('' lparen_token) in
           bind (parse_I n ps) (\<lambda>ids ps.
           let node = add_child node ids in
           bind (expect RIGHT_PAREN ps) (\<lambda>rparen_token ps.
           return (add_child node (leaf '')'' rparen_token)) ps))))
      else if tok_type token = READLN then
        (case Parser_advance ps of (readln_token, ps) \<Rightarrow>
           let node = add_child node (leaf ''readln'' readln_token) in
           if tok_type (Parser_peek ps) = LEFT_PAREN then
             (case Parser_advance ps of (lparen_token, ps) \<Rightarrow>
                let node = add_child node (leaf ''('' lparen_token) in
                bind (parse_I n ps) (\<lambda>ids ps.
                let node = add_child node ids in
                bind (expect RIGHT_PAREN ps) (\<lambda>rparen_token ps.
                return (add_child node (leaf '')'' rparen_token)) ps)))
           else return node ps)
      else return node ps)"

fun parse_G :: "nat \<Rightarrow> Parser \<Rightarrow> TreeNode parse_result" where
  "parse_G 0 ps = None"
| "parse_G (Suc n) ps =
     (let node = node_of ''G'' in
      if tok_type (Parser_peek ps) = STRING then
        (case Parser_advance ps of (str_token, ps) \<Rightarrow>
           return (add_child node (leaf ''str'' str_token)) ps)
      else bind (parse_E n ps) (\<lambda>e ps. return (add_child node e) ps))"

fun parse_F :: "nat \<Rightarrow> Parser \<Rightarrow> TreeNode parse_result" where
  "parse_F 0 ps = None"
| "parse_F (Suc n) ps =
     (let node = node_of ''F'' in
      bind (parse_G n ps) (\<lambda>g ps.
      let node = add_child node g in
      if tok_type (Parser_peek ps) = COMMA then
        (case Parser_advance ps of (comma_token, ps) \<Rightarrow>
           let node = add_child node (leaf '','' comma_token) in
           bind (parse_F n ps) (\<lambda>rest ps. return (add_child node rest) ps))
      else return node ps))"

fun parse_W :: "nat \<Rightarrow> Parser \<Rightarrow> TreeNode parse_result" where
  "parse_W 0 ps = None"
| "parse_W (Suc n) ps =
     (let node = node_of ''W''; token = Parser_peek ps in
      if tok_type token = WRITE then
        (case Parser_advance ps of (write_token, ps) \<Rightarrow>
           let node = add_child node (leaf ''write'' write_token) in
           bind (expect LEFT_PAREN ps) (\<lambda>lparen_token ps.
           let node = add_child node (leaf ''('' lparen_token) in
           bind (parse_F n ps) (\<lambda>f ps.
           let node = add_child node f in
           bind (expect RIGHT_PAREN ps) (\<lambda>rparen_token ps.
           return (add_child node (leaf '')'' rparen_token)) ps))))
      else if tok_type token = WRITELN then
        (case Parser_advance ps of (writeln_token, ps) \<Rightarrow>
           let node = add_child node (leaf ''writeln'' writeln_token) in
           if tok_type (Parser_peek ps) = LEFT_PAREN then
             (case Parser_advance ps of (lparen_token, ps) \<Rightarrow>
                let node = add_child node (leaf ''('' lparen_token) in
                bind (parse_F n ps) (\<lambda>f ps.
                let node = add_child node f in
                bind (expect RIGHT_PAREN ps) (\<lambda>rparen_token ps.
                return (add_child node (leaf '')'' rparen_token)) ps)))
           else return node ps)
      else return node ps)"

text \<open>Command lists and commands.\<close>

fun parse_L :: "nat \<Rightarrow> Parser \<Rightarrow> TreeNode parse_result"
  and parse_C :: "nat \<Rightarrow> Parser \<Rightarrow> TreeNode parse_result"
  and parse_M :: "nat \<Rightarrow> Parser \<Rightarrow> TreeNode parse_result"
  and parse_N :: "nat \<Rightarrow> Parser \<Rightarrow> TreeNode parse_result"
  and parse_P :: "nat \<Rightarrow> Parser \<Rightarrow> TreeNode parse_result"
where
  "parse_L 0 ps = None"
| "parse_L (Suc n) ps =
     (let node = node_of ''L'' in
      bind (parse_C n ps) (\<lambda>c ps.
      let node = add_child node c in
      if tok_type (Parser_peek ps) = SEMICOLON then
        (case Parser_advance ps of (semi_token, ps) \<Rightarrow>
           let node = add_child node (leaf '';'' semi_token) in
           if tok_type (Parser_peek ps) \<notin> set [END, EOF]
           then bind (parse_L n ps) (\<lambda>rest ps. return (add_child node rest) ps)
           else return node ps)
      else return node ps))"
| "parse_C 0 ps = None"
| "parse_C (Suc n) ps =
     (let node = node_of ''C''; token = Parser_peek ps in
      if tok_type token = IDENTIFIER then
        bind (parse_A n ps) (\<lambda>a ps. return (add_child node a) ps)
      else if tok_type token \<in> set [READ, READLN] then
        bind (parse_R n ps) (\<lambda>r ps. return (add_child node r) ps)
      else if tok_type token \<in> set [WRITE, WRITELN] then
        bind (parse_W n ps) (\<lambda>w ps. return (add_child node w) ps)
      else if tok_type token = BEGIN then
        bind (parse_M n ps) (\<lambda>m ps. return (add_child node m) ps)
      else if tok_type token = IF then
        bind (parse_N n ps) (\<lambda>c ps. return (add_child node c) ps)
      else if tok_type token = WHILE then
        bind (parse_P n ps) (\<lambda>p ps. return (add_child node p) ps)
      else raise (SyntaxError (''Comando inv'' @ [CHR 0xE1] @ ''lido'') (Some token)))"
| "parse_M 0 ps = None"
| "parse_M (Suc n) ps =
     (let node = node_of ''M'' in
      bind (expect BEGIN ps) (\<lambda>begin_token ps.
      let node = add_child node (leaf ''begin'' begin_token) in
      bind (parse_L n ps) (\<lambda>l ps.
      let node = add_child node l in
      bind (expect END ps) (\<lambda>end_token ps.
      return (add_child node (leaf ''end'' end_token)) ps))))"
| "parse_N 0 ps = None"
| "parse_N (Suc n) ps =
     (let node = node_of ''N'' in
      bind (expect IF ps) (\<lambda>if_token ps.
      let node = add_child node (leaf ''if'' if_token) in
      bind (parse_B n ps) (\<lambda>b ps.
      let node = add_child node b in
      bind (expect THEN ps) (\<lambda>then_token ps.
      let node = add_child node (leaf ''then'' then_token) in
      bind (parse_C n ps) (\<lambda>c ps.
      let node = add_child node c in
      if tok_type (Parser_peek ps) = ELSE then
        (case Parser_advance ps of (else_token, ps) \<Rightarrow>
           let node = add_child node (leaf ''else'' else_token) in
           bind (parse_C n ps) (\<lambda>c2 ps. return (add_child node c2) ps))
      else return node ps)))))"
| "parse_P 0 ps = None"
| "parse_P (Suc n) ps =
     (let node = node_of ''P'' in
      bind (expect WHILE ps) (\<lambda>while_token ps.
      let node = add_child node (leaf ''while'' while_token) in
      bind (parse_B n ps) (\<lambda>b ps.
      let node = add_child node b in
      bind (expect DO ps) (\<lambda>do_token ps.
      let node = add_child node (leaf ''do'' do_token) in
      bind (parse_C n ps) (\<lambda>c ps. return (add_child node c) ps)))))"

fun parse_S :: "nat \<Rightarrow> Parser \<Rightarrow> TreeNode parse_result" where
  "parse_S 0 ps = None"
| "parse_S (Suc n) ps =
     (let node = node_of ''S'' in
      bind (expect PROGRAM ps) (\<lambda>prog_token ps.
      let node = add_child node (leaf ''program'' prog_token) in
      bind (expect IDENTIFIER ps) (\<lambda>id_token ps.
      let node = add_child node (leaf ''id'' id_token) in
      bind (expect SEMICOLON ps) (\<lambda>semi_token ps.
      let node = add_child node (leaf '';'' semi_token) in
      bind (if tok_type (Parser_peek ps) = VAR
            then bind (parse_D n ps) (\<lambda>d ps. return (add_child node d) ps)
            else return node ps) (\<lambda>node ps.
      bind (expect BEGIN ps) (\<lambda>begin_token ps.
      let node = add_child node (leaf ''begin'' begin_token) in
      bind (parse_L n ps) (\<lambda>l ps.
      let node = add_child node l in
      bind (expect END ps) (\<lambda>end_token ps.
      let node = add_child node (leaf ''end'' end_token) in
      bind (expect DOT ps) (\<lambda>dot_token ps.
      return (add_child node (leaf ''.'' dot_token)) ps)))))))))"

text \<open>
  \<open>parse\<close>: runs \<open>parse_S\<close> and then requires the current token to be the end marker.
\<close>

fun parse_fuel :: "nat \<Rightarrow> Parser \<Rightarrow> TreeNode parse_result" where
  "parse_fuel 0 ps = None"
| "parse_fuel (Suc n) ps =
     bind (parse_S n ps) (\<lambda>tree ps.
     if tok_type (Parser_peek ps) \<noteq> EOF
     then raise (SyntaxError ''Esperado fim do programa'' (Some (Parser_peek ps)))
     else return tree ps)"

definition parse :: "Parser \<Rightarrow> TreeNode parse_result" where
  "parse ps = parse_fuel (6 * length (p_tokens ps) + 2) ps"

section \<open>Invariants of the parser\<close>

text \<open>The tokens carried by the nodes of a tree, from left to right.\<close>

fun tree_tokens :: "TreeNode \<Rightarrow> Token list" where
  "tree_tokens (TreeNode s tok cs) =
     (case tok of Some t \<Rightarrow> [t] | None \<Rightarrow> []) @ concat (map tree_tokens cs)"

text \<open>
  The states reached by a parser built by the constructor: the cursor is inside the token
  list, whose last token is of kind \<open>EOF\<close>. \<open>pending\<close> counts the tokens from
  the cursor on.
\<close>

definition wf_parser :: "Parser \<Rightarrow> bool" where
  "wf_parser ps \<longleftrightarrow>
     p_current ps < length (p_tokens ps) \<and> tok_type (last (p_tokens ps)) = EOF"

definition pending :: "Parser \<Rightarrow> nat" where
  "pending ps = length (p_tokens ps) - p_current ps"

text \<open>
  \<open>parses ps r\<close>: the run that started in state \<open>ps\<close> did not use up its fuel, and
  if it returned a node then it left a well-formed state over the same tokens, did not
  move the cursor back, and every token of the node is a token of the list other than the
  end marker.
\<close>

definition real_leaves :: "Token list \<Rightarrow> TreeNode \<Rightarrow> bool" where
  "real_leaves toks t \<longleftrightarrow> (\<forall>x \<in> set (tree_tokens t). x \<in> set toks \<and> tok_type x \<noteq> EOF)"

definition parses :: "Parser \<Rightarrow> TreeNode parse_result \<Rightarrow> bool" where
  "parses ps r \<longleftrightarrow>
     (\<exists>res. r = Some res \<and>
        (\<forall>t ps'. res = Inr (t, ps') \<longrightarrow>
           wf_parser ps' \<and> p_tokens ps' = p_tokens ps \<and> pending ps' \<le> pending ps
           \<and> real_leaves (p_tokens ps) t))"

lemma tree_tokens_add_child [simp]: "tree_tokens (add_child n c) = tree_tokens n @ tree_tokens c"
  by (cases n) (simp add: add_child_def)

lemma tree_tokens_leaf [simp]: "tree_tokens (leaf s t) = [t]"
  by (simp add: leaf_def)

lemma tree_tokens_node_of [simp]: "tree_tokens (node_of s) = []"
  by (simp add: node_of_def)

lemma real_leaves_add_child [simp]:
  "real_leaves toks (add_child n c) \<longleftrightarrow> real_leaves toks n \<and> real_leaves toks c"
  by (auto simp: real_leaves_def)

lemma real_leaves_leaf [simp]:
  "real_leaves toks (leaf s t) \<longleftrightarrow> t \<in> set toks \<and> tok_type t \<noteq> EOF"
  by (simp add: real_leaves_def)

lemma real_leaves_node_of [simp]: "real_leaves toks (node_of s)"
  by (simp add: real_leaves_def)

lemma peek_in_tokens: "wf_parser ps \<Longrightarrow> Parser_peek ps \<in> set (p_tokens ps)"
  by (simp add: wf_parser_def Parser_peek_def)

lemma not_at_marker:
  assumes "wf_parser ps" and "tok_type (Parser_peek ps) \<noteq> EOF"
  shows "Suc (p_current ps) < length (p_tokens ps)"
proof (rule ccontr)
  assume "\<not> Suc (p_current ps) < length (p_tokens ps)"
  with assms(1) have c: "p_current ps = length (p_tokens ps) - 1" and ne: "p_tokens ps \<noteq> []"
    by (auto simp: wf_parser_def)
  then have "Parser_peek ps = last (p_tokens ps)"
    using assms(1) by (simp add: Parser_peek_def wf_parser_def last_conv_nth)
  with assms show False by (simp add: wf_parser_def)
qed

lemma Parser_advance_eq:
  assumes "wf_parser ps" and "tok_type (Parser_peek ps) \<noteq> EOF"
  shows "Parser_advance ps = (Parser_peek ps, ps\<lparr>p_current := Suc (p_current ps)\<rparr>)"
  using not_at_marker [OF assms] by (simp add: Parser_advance_def Let_def)

lemma advanced_state:
  assumes "wf_parser ps" and "tok_type (Parser_peek ps) \<noteq> EOF"
  shows "wf_parser (ps\<lparr>p_current := Suc (p_current ps)\<rparr>)"
    and "Suc (pending (ps\<lparr>p_current := Suc (p_current ps)\<rparr>)) = pending ps"
  using not_at_marker [OF assms] assms(1) by (simp_all add: wf_parser_def pending_def)

lemma parses_raise [simp]: "parses ps (raise e)"
  by (simp add: parses_def raise_def)

lemma parses_return:
  "wf_parser ps \<Longrightarrow> real_leaves (p_tokens ps) t \<Longrightarrow> parses ps (return t ps)"
  by (simp add: parses_def return_def)

lemma parses_weaken:
  assumes "parses ps' r" and "p_tokens ps' = p_tokens ps" and "pending ps' \<le> pending ps"
  shows "parses ps r"
proof -
  from assms(1) obtain res where r: "r = Some res"
    and post: "\<And>t ps''. res = Inr (t, ps'') \<Longrightarrow>
                 wf_parser ps'' \<and> p_tokens ps'' = p_tokens ps' \<and> pending ps'' \<le> pending ps'
                 \<and> real_leaves (p_tokens ps') t"
    unfolding parses_def by blast
  have "wf_parser ps'' \<and> p_tokens ps'' = p_tokens ps \<and> pending ps'' \<le> pending ps
          \<and> real_leaves (p_tokens ps) t" if "res = Inr (t, ps'')" for t ps''
    using post [OF that] assms(2,3) by simp
  with r show ?thesis unfolding parses_def by blast
qed

lemma parses_bind:
  assumes "parses ps r"
    and "\<And>x ps'. \<lbrakk>wf_parser ps'; p_tokens ps' = p_tokens ps; pending ps' \<le> pending ps;
                   real_leaves (p_tokens ps) x\<rbrakk> \<Longrightarrow> parses ps' (f x ps')"
  shows "parses ps (bind r f)"
proof -
  from assms(1) obtain res where r: "r = Some res"
    and post: "\<And>t ps'. res = Inr (t, ps') \<Longrightarrow>
                 wf_parser ps' \<and> p_tokens ps' = p_tokens ps \<and> pending ps' \<le> pending ps
                 \<and> real_leaves (p_tokens ps) t"
    unfolding parses_def by blast
  show ?thesis
  proof (cases res)
    case (Inl e)
    with r show ?thesis by (simp add: bind_def parses_def)
  next
    case (Inr p)
    obtain x ps' where p: "p = (x, ps')" by (cases p)
    from post [of x ps'] Inr p have facts: "wf_parser ps'" "p_tokens ps' = p_tokens ps"
      "pending ps' \<le> pending ps" "real_leaves (p_tokens ps) x" by simp_all
    from assms(2) [OF facts] have "parses ps' (f x ps')" .
    then have "parses ps (f x ps')"
      using facts(2,3) by (rule parses_weaken)
    with r Inr p show ?thesis by (simp add: bind_def)
  qed
qed

lemma parses_advance:
  assumes "wf_parser ps" and "tok_type (Parser_peek ps) \<noteq> EOF"
    and "\<And>ps'. \<lbrakk>wf_parser ps'; p_tokens ps' = p_tokens ps; Suc (pending ps') = pending ps;
                Parser_peek ps \<in> set (p_tokens ps)\<rbrakk> \<Longrightarrow> parses ps' (f (Parser_peek ps) ps')"
  shows "parses ps (case Parser_advance ps of (t, ps') \<Rightarrow> f t ps')"
proof -
  let ?ps' = "ps\<lparr>p_current := Suc (p_current ps)\<rparr>"
  have "parses ?ps' (f (Parser_peek ps) ?ps')"
    using advanced_state [OF assms(1,2)] peek_in_tokens [OF assms(1)] by (intro assms(3)) simp_all
  then have "parses ps (f (Parser_peek ps) ?ps')"
    by (rule parses_weaken) (use advanced_state(2) [OF assms(1,2)] in simp_all)
  then show ?thesis by (simp add: Parser_advance_eq [OF assms(1,2)])
qed

lemma parses_bind_expect:
  assumes "wf_parser ps" and "k \<noteq> EOF"
    and "\<And>ps'. \<lbrakk>tok_type (Parser_peek ps) = k; wf_parser ps'; p_tokens ps' = p_tokens ps;
                Suc (pending ps') = pending ps; Parser_peek ps \<in> set (p_tokens ps)\<rbrakk>
           \<Longrightarrow> parses ps' (f (Parser_peek ps) ps')"
  shows "parses ps (bind (expect k ps) f)"
proof (cases "tok_type (Parser_peek ps) = k")
  case False
  then show ?thesis by (simp add: expect_def bind_def raise_def parses_def Let_def)
next
  case True
  with assms(2) have ne: "tok_type (Parser_peek ps) \<noteq> EOF" by simp
  have "parses ps (case Parser_advance ps of (t, ps') \<Rightarrow> f t ps')"
    using assms(1) ne by (rule parses_advance) (rule assms(3) [OF True])
  then show ?thesis
    using True by (simp add: expect_def bind_def return_def Let_def Parser_advance_eq [OF assms(1) ne])
qed

lemma parses_if:
  "(c \<Longrightarrow> parses ps a) \<Longrightarrow> (\<not> c \<Longrightarrow> parses ps b) \<Longrightarrow> parses ps (if c then a else b)"
  by simp

lemmas parses_intros =
  parses_if parses_raise parses_return parses_bind parses_advance parses_bind_expect

text \<open>
  Every procedure, started in a well-formed state with six units of fuel for each pending
  token and a few more, returns or raises.
\<close>

lemma parse_T_parses: "wf_parser ps \<Longrightarrow> parses ps (parse_T ps)"
  unfolding parse_T_def Let_def
  by (intro parses_intros) simp_all

lemma parse_I_parses:
  "wf_parser ps \<Longrightarrow> 1 + 6 * pending ps \<le> n \<Longrightarrow> parses ps (parse_I n ps)"
proof (induction n arbitrary: ps)
  case 0
  then show ?case by simp
next
  case (Suc n)
  note IH = Suc.IH
  from Suc.prems show ?case
    apply (subst parse_I.simps)
    apply ((unfold Let_def)?)
    apply (intro parses_intros IH )
    apply auto
    done
qed

lemma parse_V_parses:
  "wf_parser ps \<Longrightarrow> 2 + 6 * pending ps \<le> n \<Longrightarrow> parses ps (parse_V n ps)"
proof (induction n arbitrary: ps)
  case 0
  then show ?case by simp
next
  case (Suc n)
  note IH = Suc.IH
  from Suc.prems show ?case
    apply (subst parse_V.simps)
    apply ((unfold Let_def)?)
    apply (intro parses_intros IH parse_I_parses parse_T_parses)
    apply auto
    done
qed

lemma parse_D_parses:
  "wf_parser ps \<Longrightarrow> 1 + 6 * pending ps \<le> n \<Longrightarrow> parses ps (parse_D n ps)"
proof (induction n arbitrary: ps)
  case 0
  then show ?case by simp
next
  case (Suc n)
  note IH = Suc.IH
  from Suc.prems show ?case
    apply (subst parse_D.simps)
    apply ((unfold Let_def)?)
    apply (intro parses_intros IH parse_V_parses)
    apply auto
    done
qed

lemma E_group_parses:
  "(\<forall>ps. wf_parser ps \<longrightarrow> 3 + 6 * pending ps \<le> n \<longrightarrow> parses ps (parse_E_expr n ps)) \<and>
   (\<forall>left ps. wf_parser ps \<longrightarrow> real_leaves (p_tokens ps) left \<longrightarrow> 1 + 6 * pending ps \<le> n
        \<longrightarrow> parses ps (E_expr_loop n left ps)) \<and>
   (\<forall>ps. wf_parser ps \<longrightarrow> 2 + 6 * pending ps \<le> n \<longrightarrow> parses ps (parse_E_term n ps)) \<and>
   (\<forall>left ps. wf_parser ps \<longrightarrow> real_leaves (p_tokens ps) left \<longrightarrow> 1 + 6 * pending ps \<le> n
        \<longrightarrow> parses ps (E_term_loop n left ps)) \<and>
   (\<forall>ps. wf_parser ps \<longrightarrow> 1 + 6 * pending ps \<le> n \<longrightarrow> parses ps (parse_E_factor n ps))"
proof (induction n)
  case 0
  show ?case by simp
next
  case (Suc n)
  note IH = Suc.IH [THEN conjunct1, rule_format]
    Suc.IH [THEN conjunct2, THEN conjunct1, rule_format]
    Suc.IH [THEN conjunct2, THEN conjunct2, THEN conjunct1, rule_format]
    Suc.IH [THEN conjunct2, THEN conjunct2, THEN conjunct2, THEN conjunct1, rule_format]
    Suc.IH [THEN conjunct2, THEN conjunct2, THEN conjunct2, THEN conjunct2, rule_format]
  have expr: "parses ps (parse_E_expr (Suc n) ps)"
    if "wf_parser ps" "3 + 6 * pending ps \<le> Suc n" for ps
    using that
    apply (subst parse_E_expr.simps)
    apply (intro parses_intros IH)
    apply auto
    done
  have expr_loop: "parses ps (E_expr_loop (Suc n) left ps)"
    if "wf_parser ps" "real_leaves (p_tokens ps) left" "1 + 6 * pending ps \<le> Suc n" for left ps
    using that
    apply (subst E_expr_loop.simps)
    apply (intro parses_intros IH)
    apply auto
    done
  have "term": "parses ps (parse_E_term (Suc n) ps)"
    if "wf_parser ps" "2 + 6 * pending ps \<le> Suc n" for ps
    using that
    apply (subst parse_E_term.simps)
    apply (intro parses_intros IH)
    apply auto
    done
  have term_loop: "parses ps (E_term_loop (Suc n) left ps)"
    if "wf_parser ps" "real_leaves (p_tokens ps) left" "1 + 6 * pending ps \<le> Suc n" for left ps
    using that
    apply (subst E_term_loop.simps)
    apply (intro parses_intros IH)
    apply auto
    done
  have factor: "parses ps (parse_E_factor (Suc n) ps)"
    if "wf_parser ps" "1 + 6 * pending ps \<le> Suc n" for ps
    using that
    apply (subst parse_E_factor.simps)
    apply ((unfold Let_def)?)
    apply (intro parses_intros IH)
    apply auto
    done
  from expr expr_loop "term" term_loop factor show ?case by blast
qed

lemmas parse_E_expr_parses = E_group_parses [THEN conjunct1, rule_format]

lemma parse_E_parses:
  assumes "wf_parser ps" and "4 + 6 * pending ps \<le> n"
  shows "parses ps (parse_E n ps)"
proof (cases n)
  case 0
  with assms(2) show ?thesis by simp
next
  case (Suc m)
  with assms show ?thesis
    apply (simp only:)
    apply (subst parse_E.simps)
    apply ((unfold Let_def)?)
    apply (intro parses_intros parse_E_expr_parses)
    apply auto
    done
qed

lemma parse_B_parses:
  assumes "wf_parser ps" and "5 + 6 * pending ps \<le> n"
  shows "parses ps (parse_B n ps)"
proof (cases n)
  case 0
  with assms(2) show ?thesis by simp
next
  case (Suc m)
  with assms show ?thesis
    apply (simp only:)
    apply (subst parse_B.simps)
    apply ((unfold Let_def)?)
    apply (intro parses_intros parse_E_parses)
    apply auto
    done
qed

lemma parse_A_parses:
  assumes "wf_parser ps" and "1 + 6 * pending ps \<le> n"
  shows "parses ps (parse_A n ps)"
proof (cases n)
  case 0
  with assms(2) show ?thesis by simp
next
  case (Suc m)
  with assms show ?thesis
    apply (simp only:)
    apply (subst parse_A.simps)
    apply ((unfold Let_def)?)
    apply (intro parses_intros parse_E_parses)
    apply auto
    done
qed

lemma parse_R_parses:
  assumes "wf_parser ps" and "1 + 6 * pending ps \<le> n"
  shows "parses ps (parse_R n ps)"
proof (cases n)
  case 0
  with assms(2) show ?thesis by simp
next
  case (Suc m)
  with assms show ?thesis
    apply (simp only:)
    apply (subst parse_R.simps)
    apply ((unfold Let_def)?)
    apply (intro parses_intros parse_I_parses)
    apply auto
    done
qed

lemma parse_G_parses:
  assumes "wf_parser ps" and "5 + 6 * pending ps \<le> n"
  shows "parses ps (parse_G n ps)"
proof (cases n)
  case 0
  with assms(2) show ?thesis by simp
next
  case (Suc m)
  with assms show ?thesis
    apply (simp only:)
    apply (subst parse_G.simps)
    apply ((unfold Let_def)?)
    apply (intro parses_intros parse_E_parses)
    apply auto
    done
qed

lemma parse_F_parses:
  "wf_parser ps \<Longrightarrow> 6 + 6 * pending ps \<le> n \<Longrightarrow> parses ps (parse_F n ps)"
proof (induction n arbitrary: ps)
  case 0
  then show ?case by simp
next
  case (Suc n)
  note IH = Suc.IH
  from Suc.prems show ?case
    apply (subst parse_F.simps)
    apply ((unfold Let_def)?)
    apply (intro parses_intros IH parse_G_parses)
    apply auto
    done
qed

lemma parse_W_parses:
  assumes "wf_parser ps" and "1 + 6 * pending ps \<le> n"
  shows "parses ps (parse_W n ps)"
proof (cases n)
  case 0
  with assms(2) show ?thesis by simp
next
  case (Suc m)
  with assms show ?thesis
    apply (simp only:)
    apply (subst parse_W.simps)
    apply ((unfold Let_def)?)
    apply (intro parses_intros parse_F_parses)
    apply auto
    done
qed

lemma command_group_parses:
  "(\<forall>ps. wf_parser ps \<longrightarrow> 3 + 6 * pending ps \<le> n \<longrightarrow> parses ps (parse_L n ps)) \<and>
   (\<forall>ps. wf_parser ps \<longrightarrow> 2 + 6 * pending ps \<le> n \<longrightarrow> parses ps (parse_C n ps)) \<and>
   (\<forall>ps. wf_parser ps \<longrightarrow> 1 + 6 * pending ps \<le> n \<longrightarrow> parses ps (parse_M n ps)) \<and>
   (\<forall>ps. wf_parser ps \<longrightarrow> 1 + 6 * pending ps \<le> n \<longrightarrow> parses ps (parse_N n ps)) \<and>
   (\<forall>ps. wf_parser ps \<longrightarrow> 1 + 6 * pending ps \<le> n \<longrightarrow> parses ps (parse_P n ps))"
proof (induction n)
  case 0
  show ?case by simp
next
  case (Suc n)
  note IH = Suc.IH [THEN conjunct1, rule_format]
    Suc.IH [THEN conjunct2, THEN conjunct1, rule_format]
    Suc.IH [THEN conjunct2, THEN conjunct2, THEN conjunct1, rule_format]
    Suc.IH [THEN conjunct2, THEN conjunct2, THEN conjunct2, THEN conjunct1, rule_format]
    Suc.IH [THEN conjunct2, THEN conjunct2, THEN conjunct2, THEN conjunct2, rule_format]
  note sub = parse_A_parses parse_R_parses parse_W_parses parse_B_parses
  have l: "parses ps (parse_L (Suc n) ps)" if "wf_parser ps" "3 + 6 * pending ps \<le> Suc n" for ps
    using that
    apply (subst parse_L.simps)
    apply ((unfold Let_def)?)
    apply (intro parses_intros IH sub)
    apply auto
    done
  have c: "parses ps (parse_C (Suc n) ps)" if "wf_parser ps" "2 + 6 * pending ps \<le> Suc n" for ps
    using that
    apply (subst parse_C.simps)
    apply ((unfold Let_def)?)
    apply (intro parses_intros IH sub)
    apply auto
    done
  have m: "parses ps (parse_M (Suc n) ps)" if "wf_parser ps" "1 + 6 * pending ps \<le> Suc n" for ps
    using that
    apply (subst parse_M.simps)
    apply ((unfold Let_def)?)
    apply (intro parses_intros IH sub)
    apply auto
    done
  have n: "parses ps (parse_N (Suc n) ps)" if "wf_parser ps" "1 + 6 * pending ps \<le> Suc n" for ps
    using that
    apply (subst parse_N.simps)
    apply ((unfold Let_def)?)
    apply (intro parses_intros IH sub)
    apply auto
    done
  have p: "parses ps (parse_P (Suc n) ps)" if "wf_parser ps" "1 + 6 * pending ps \<le> Suc n" for ps
    using that
    apply (subst parse_P.simps)
    apply ((unfold Let_def)?)
    apply (intro parses_intros IH sub)
    apply auto
    done
  from l c m n p show ?case by blast
qed

lemmas parse_L_parses = command_group_parses [THEN conjunct1, rule_format]

lemma parse_S_parses:
  assumes "wf_parser ps" and "1 + 6 * pending ps \<le> n"
  shows "parses ps (parse_S n ps)"
proof (cases n)
  case 0
  with assms(2) show ?thesis by simp
next
  case (Suc m)
  with assms show ?thesis
    apply (simp only:)
    apply (subst parse_S.simps)
    apply ((unfold Let_def)?)
    apply (intro parses_intros parse_D_parses parse_L_parses)
    apply auto
    done
qed

lemma parse_fuel_parses:
  assumes "wf_parser ps" and "2 + 6 * pending ps \<le> n"
  shows "parses ps (parse_fuel n ps)"
proof (cases n)
  case 0
  with assms(2) show ?thesis by simp
next
  case (Suc m)
  with assms show ?thesis
    apply (simp only:)
    apply (subst parse_fuel.simps)
    apply ((unfold Let_def)?)
    apply (intro parses_intros parse_S_parses)
    apply auto
    done
qed

lemma parse_parses: "wf_parser ps \<Longrightarrow> parses ps (parse ps)"
  unfolding parse_def by (rule parse_fuel_parses) (simp_all add: pending_def)

text \<open>More fuel does not change the result of a run that did not use up its supply.\<close>

definition res_le :: "'a parse_result \<Rightarrow> 'a parse_result \<Rightarrow> bool" where
  "res_le r r' \<longleftrightarrow> r = None \<or> r' = r"

lemma res_le_refl: "res_le r r"
  by (simp add: res_le_def)

lemma res_le_None [simp]: "res_le None r"
  by (simp add: res_le_def)

lemma res_le_bind:
  "res_le r r' \<Longrightarrow> (\<And>x ps. res_le (f x ps) (g x ps)) \<Longrightarrow> res_le (bind r f) (bind r' g)"
  by (auto simp: res_le_def bind_def split: option.splits sum.splits)

lemma res_le_if:
  "(c \<Longrightarrow> res_le a a') \<Longrightarrow> (\<not> c \<Longrightarrow> res_le b b')
     \<Longrightarrow> res_le (if c then a else b) (if c then a' else b')"
  by simp

lemma res_le_case_prod:
  "(\<And>a b. res_le (f a b) (g a b)) \<Longrightarrow> res_le (case p of (a, b) \<Rightarrow> f a b) (case p of (a, b) \<Rightarrow> g a b)"
  by (cases p) simp

lemmas res_le_intros = res_le_refl res_le_bind res_le_if res_le_case_prod

lemma E_group_mono:
  "(\<forall>m ps. n \<le> m \<longrightarrow> res_le (parse_E_expr n ps) (parse_E_expr m ps)) \<and>
   (\<forall>m left ps. n \<le> m \<longrightarrow> res_le (E_expr_loop n left ps) (E_expr_loop m left ps)) \<and>
   (\<forall>m ps. n \<le> m \<longrightarrow> res_le (parse_E_term n ps) (parse_E_term m ps)) \<and>
   (\<forall>m left ps. n \<le> m \<longrightarrow> res_le (E_term_loop n left ps) (E_term_loop m left ps)) \<and>
   (\<forall>m ps. n \<le> m \<longrightarrow> res_le (parse_E_factor n ps) (parse_E_factor m ps))"
proof (induction n)
  case 0
  show ?case by simp
next
  case (Suc n)
  note IH = Suc.IH [THEN conjunct1, rule_format]
    Suc.IH [THEN conjunct2, THEN conjunct1, rule_format]
    Suc.IH [THEN conjunct2, THEN conjunct2, THEN conjunct1, rule_format]
    Suc.IH [THEN conjunct2, THEN conjunct2, THEN conjunct2, THEN conjunct1, rule_format]
    Suc.IH [THEN conjunct2, THEN conjunct2, THEN conjunct2, THEN conjunct2, rule_format]
  have h0: "res_le (parse_E_expr (Suc n) ps) (parse_E_expr m ps)" if "Suc n \<le> m" for m ps
  proof -
    from that obtain m' where m: "m = Suc m'" and le: "n \<le> m'" by (cases m) auto
    show ?thesis unfolding m
      apply (simp only: parse_E_expr.simps Let_def)
      apply (intro res_le_intros IH [OF le] )
      done
  qed
  have h1: "res_le (E_expr_loop (Suc n) left ps) (E_expr_loop m left ps)" if "Suc n \<le> m" for m left ps
  proof -
    from that obtain m' where m: "m = Suc m'" and le: "n \<le> m'" by (cases m) auto
    show ?thesis unfolding m
      apply (simp only: E_expr_loop.simps Let_def)
      apply (intro res_le_intros IH [OF le] )
      done
  qed
  have h2: "res_le (parse_E_term (Suc n) ps) (parse_E_term m ps)" if "Suc n \<le> m" for m ps
  proof -
    from that obtain m' where m: "m = Suc m'" and le: "n \<le> m'" by (cases m) auto
    show ?thesis unfolding m
      apply (simp only: parse_E_term.simps Let_def)
      apply (intro res_le_intros IH [OF le] )
      done
  qed
  have h3: "res_le (E_term_loop (Suc n) left ps) (E_term_loop m left ps)" if "Suc n \<le> m" for m left ps
  proof -
    from that obtain m' where m: "m = Suc m'" and le: "n \<le> m'" by (cases m) auto
    show ?thesis unfolding m
      apply (simp only: E_term_loop.simps Let_def)
      apply (intro res_le_intros IH [OF le] )
      done
  qed
  have h4: "res_le (parse_E_factor (Suc n) ps) (parse_E_factor m ps)" if "Suc n \<le> m" for m ps
  proof -
    from that obtain m' where m: "m = Suc m'" and le: "n \<le> m'" by (cases m) auto
    show ?thesis unfolding m
      apply (simp only: parse_E_factor.simps Let_def)
      apply (intro res_le_intros IH [OF le] )
      done
  qed
  from h0 h1 h2 h3 h4 show ?case by blast
qed

lemmas parse_E_expr_mono = E_group_mono [THEN conjunct1, rule_format]

lemma parse_E_mono: "n \<le> m \<Longrightarrow> res_le (parse_E n ps) (parse_E m ps)"
proof (induction n arbitrary: m ps)
  case 0
  show ?case by simp
next
  case (Suc n)
  then obtain m' where m: "m = Suc m'" and le: "n \<le> m'" by (cases m) auto
  note IH = Suc.IH [OF le]
  show ?case unfolding m
    apply (simp only: parse_E.simps Let_def)
    apply (intro res_le_intros IH parse_E_expr_mono [OF le])
    done
qed

lemma parse_B_mono: "n \<le> m \<Longrightarrow> res_le (parse_B n ps) (parse_B m ps)"
proof (induction n arbitrary: m ps)
  case 0
  show ?case by simp
next
  case (Suc n)
  then obtain m' where m: "m = Suc m'" and le: "n \<le> m'" by (cases m) auto
  note IH = Suc.IH [OF le]
  show ?case unfolding m
    apply (simp only: parse_B.simps Let_def)
    apply (intro res_le_intros IH parse_E_mono [OF le])
    done
qed

lemma parse_I_mono: "n \<le> m \<Longrightarrow> res_le (parse_I n ps) (parse_I m ps)"
proof (induction n arbitrary: m ps)
  case 0
  show ?case by simp
next
  case (Suc n)
  then obtain m' where m: "m = Suc m'" and le: "n \<le> m'" by (cases m) auto
  note IH = Suc.IH [OF le]
  show ?case unfolding m
    apply (simp only: parse_I.simps Let_def)
    apply (intro res_le_intros IH )
    done
qed

lemma parse_V_mono: "n \<le> m \<Longrightarrow> res_le (parse_V n ps) (parse_V m ps)"
proof (induction n arbitrary: m ps)
  case 0
  show ?case by simp
next
  case (Suc n)
  then obtain m' where m: "m = Suc m'" and le: "n \<le> m'" by (cases m) auto
  note IH = Suc.IH [OF le]
  show ?case unfolding m
    apply (simp only: parse_V.simps Let_def)
    apply (intro res_le_intros IH parse_I_mono [OF le])
    done
qed

lemma parse_D_mono: "n \<le> m \<Longrightarrow> res_le (parse_D n ps) (parse_D m ps)"
proof (induction n arbitrary: m ps)
  case 0
  show ?case by simp
next
  case (Suc n)
  then obtain m' where m: "m = Suc m'" and le: "n \<le> m'" by (cases m) auto
  note IH = Suc.IH [OF le]
  show ?case unfolding m
    apply (simp only: parse_D.simps Let_def)
    apply (intro res_le_intros IH parse_V_mono [OF le])
    done
qed

lemma parse_A_mono: "n \<le> m \<Longrightarrow> res_le (parse_A n ps) (parse_A m ps)"
proof (induction n arbitrary: m ps)
  case 0
  show ?case by simp
next
  case (Suc n)
  then obtain m' where m: "m = Suc m'" and le: "n \<le> m'" by (cases m) auto
  note IH = Suc.IH [OF le]
  show ?case unfolding m
    apply (simp only: parse_A.simps Let_def)
    apply (intro res_le_intros IH parse_E_mono [OF le])
    done
qed

lemma parse_R_mono: "n \<le> m \<Longrightarrow> res_le (parse_R n ps) (parse_R m ps)"
proof (induction n arbitrary: m ps)
  case 0
  show ?case by simp
next
  case (Suc n)
  then obtain m' where m: "m = Suc m'" and le: "n \<le> m'" by (cases m) auto
  note IH = Suc.IH [OF le]
  show ?case unfolding m
    apply (simp only: parse_R.simps Let_def)
    apply (intro res_le_intros IH parse_I_mono [OF le])
    done
qed

lemma parse_G_mono: "n \<le> m \<Longrightarrow> res_le (parse_G n ps) (parse_G m ps)"
proof (induction n arbitrary: m ps)
  case 0
  show ?case by simp
next
  case (Suc n)
  then obtain m' where m: "m = Suc m'" and le: "n \<le> m'" by (cases m) auto
  note IH = Suc.IH [OF le]
  show ?case unfolding m
    apply (simp only: parse_G.simps Let_def)
    apply (intro res_le_intros IH parse_E_mono [OF le])
    done
qed

lemma parse_F_mono: "n \<le> m \<Longrightarrow> res_le (parse_F n ps) (parse_F m ps)"
proof (induction n arbitrary: m ps)
  case 0
  show ?case by simp
next
  case (Suc n)
  then obtain m' where m: "m = Suc m'" and le: "n \<le> m'" by (cases m) auto
  note IH = Suc.IH [OF le]
  show ?case unfolding m
    apply (simp only: parse_F.simps Let_def)
    apply (intro res_le_intros IH parse_G_mono [OF le])
    done
qed

lemma parse_W_mono: "n \<le> m \<Longrightarrow> res_le (parse_W n ps) (parse_W m ps)"
proof (induction n arbitrary: m ps)
  case 0
  show ?case by simp
next
  case (Suc n)
  then obtain m' where m: "m = Suc m'" and le: "n \<le> m'" by (cases m) auto
  note IH = Suc.IH [OF le]
  show ?case unfolding m
    apply (simp only: parse_W.simps Let_def)
    apply (intro res_le_intros IH parse_F_mono [OF le])
    done
qed

lemma command_group_mono:
  "(\<forall>m ps. n \<le> m \<longrightarrow> res_le (parse_L n ps) (parse_L m ps)) \<and>
   (\<forall>m ps. n \<le> m \<longrightarrow> res_le (parse_C n ps) (parse_C m ps)) \<and>
   (\<forall>m ps. n \<le> m \<longrightarrow> res_le (parse_M n ps) (parse_M m ps)) \<and>
   (\<forall>m ps. n \<le> m \<longrightarrow> res_le (parse_N n ps) (parse_N m ps)) \<and>
   (\<forall>m ps. n \<le> m \<longrightarrow> res_le (parse_P n ps) (parse_P m ps))"
proof (induction n)
  case 0
  show ?case by simp
next
  case (Suc n)
  note IH = Suc.IH [THEN conjunct1, rule_format]
    Suc.IH [THEN conjunct2, THEN conjunct1, rule_format]
    Suc.IH [THEN conjunct2, THEN conjunct2, THEN conjunct1, rule_format]
    Suc.IH [THEN conjunct2, THEN conjunct2, THEN conjunct2, THEN conjunct1, rule_format]
    Suc.IH [THEN conjunct2, THEN conjunct2, THEN conjunct2, THEN conjunct2, rule_format]
  have h0: "res_le (parse_L (Suc n) ps) (parse_L m ps)" if "Suc n \<le> m" for m ps
  proof -
    from that obtain m' where m: "m = Suc m'" and le: "n \<le> m'" by (cases m) auto
    show ?thesis unfolding m
      apply (simp only: parse_L.simps Let_def)
      apply (intro res_le_intros IH [OF le] parse_A_mono [OF le] parse_R_mono [OF le] parse_W_mono [OF le] parse_B_mono [OF le])
      done
  qed
  have h1: "res_le (parse_C (Suc n) ps) (parse_C m ps)" if "Suc n \<le> m" for m ps
  proof -
    from that obtain m' where m: "m = Suc m'" and le: "n \<le> m'" by (cases m) auto
    show ?thesis unfolding m
      apply (simp only: parse_C.simps Let_def)
      apply (intro res_le_intros IH [OF le] parse_A_mono [OF le] parse_R_mono [OF le] parse_W_mono [OF le] parse_B_mono [OF le])
      done
  qed
  have h2: "res_le (parse_M (Suc n) ps) (parse_M m ps)" if "Suc n \<le> m" for m ps
  proof -
    from that obtain m' where m: "m = Suc m'" and le: "n \<le> m'" by (cases m) auto
    show ?thesis unfolding m
      apply (simp only: parse_M.simps Let_def)
      apply (intro res_le_intros IH [OF le] parse_A_mono [OF le] parse_R_mono [OF le] parse_W_mono [OF le] parse_B_mono [OF le])
      done
  qed
  have h3: "res_le (parse_N (Suc n) ps) (parse_N m ps)" if "Suc n \<le> m" for m ps
  proof -
    from that obtain m' where m: "m = Suc m'" and le: "n \<le> m'" by (cases m) auto
    show ?thesis unfolding m
      apply (simp only: parse_N.simps Let_def)
      apply (intro res_le_intros IH [OF le] parse_A_mono [OF le] parse_R_mono [OF le] parse_W_mono [OF le] parse_B_mono [OF le])
      done
  qed
  have h4: "res_le (parse_P (Suc n) ps) (parse_P m ps)" if "Suc n \<le> m" for m ps
  proof -
    from that obtain m' where m: "m = Suc m'" and le: "n \<le> m'" by (cases m) auto
    show ?thesis unfolding m
      apply (simp only: parse_P.simps Let_def)
      apply (intro res_le_intros IH [OF le] parse_A_mono [OF le] parse_R_mono [OF le] parse_W_mono [OF le] parse_B_mono [OF le])
      done
  qed
  from h0 h1 h2 h3 h4 show ?case by blast
qed

lemmas parse_L_mono = command_group_mono [THEN conjunct1, rule_format]

lemma parse_S_mono: "n \<le> m \<Longrightarrow> res_le (parse_S n ps) (parse_S m ps)"
proof (induction n arbitrary: m ps)
  case 0
  show ?case by simp
next
  case (Suc n)
  then obtain m' where m: "m = Suc m'" and le: "n \<le> m'" by (cases m) auto
  note IH = Suc.IH [OF le]
  show ?case unfolding m
    apply (simp only: parse_S.simps Let_def)
    apply (intro res_le_intros IH parse_D_mono [OF le] parse_L_mono [OF le])
    done
qed

lemma parse_fuel_mono: "n \<le> m \<Longrightarrow> res_le (parse_fuel n ps) (parse_fuel m ps)"
proof (induction n arbitrary: m ps)
  case 0
  show ?case by simp
next
  case (Suc n)
  then obtain m' where m: "m = Suc m'" and le: "n \<le> m'" by (cases m) auto
  note IH = Suc.IH [OF le]
  show ?case unfolding m
    apply (simp only: parse_fuel.simps Let_def)
    apply (intro res_le_intros IH parse_S_mono [OF le])
    done
qed

text \<open>The whole analysis.\<close>

lemma wf_parser_init: "wf_parser (Parser_init toks)"
  by (simp add: wf_parser_def Parser_init_def)

lemma pending_init: "pending (Parser_init toks) = length (p_tokens (Parser_init toks))"
  by (simp add: pending_def Parser_init_def)

lemma parse_fuel_at_marker:
  assumes "parse_fuel n ps = Some (Inr (t, ps'))"
  shows "tok_type (Parser_peek ps') = EOF"
proof (cases n)
  case 0
  with assms show ?thesis by simp
next
  case (Suc m)
  with assms show ?thesis
    by (auto simp: bind_def raise_def return_def split: option.splits sum.splits if_splits)
qed

lemma marker_is_last:
  assumes "wf_parser ps" and "p_tokens ps = p_tokens (Parser_init toks)"
    and "tok_type (Parser_peek ps) = EOF"
  shows "p_current ps = length (p_tokens ps) - 1"
proof (rule ccontr)
  assume ne: "p_current ps \<noteq> length (p_tokens ps) - 1"
  let ?real = "filter (\<lambda>t. tok_type t \<noteq> NEWLINE \<and> tok_type t \<noteq> EOF) toks"
  have toks: "p_tokens ps = ?real @ [Token EOF ''$'' (- 1) (- 1)]"
    using assms(2) by (simp add: Parser_init_def)
  from assms(1) ne toks have lt: "p_current ps < length ?real"
    by (auto simp: wf_parser_def)
  then have "Parser_peek ps = ?real ! p_current ps"
    using toks by (simp add: Parser_peek_def nth_append)
  moreover have "?real ! p_current ps \<in> set ?real" using lt by (rule nth_mem)
  ultimately have "tok_type (Parser_peek ps) \<noteq> EOF" by simp
  with assms(3) show False by simp
qed

lemma parse_success:
  assumes "parse (Parser_init toks) = Some (Inr (t, ps'))"
  shows "wf_parser ps'" and "p_tokens ps' = p_tokens (Parser_init toks)"
    and "real_leaves (p_tokens (Parser_init toks)) t"
    and "p_current ps' = length (p_tokens ps') - 1"
proof -
  from parse_parses [OF wf_parser_init, of toks] assms
  show wf: "wf_parser ps'" and tk: "p_tokens ps' = p_tokens (Parser_init toks)"
    and "real_leaves (p_tokens (Parser_init toks)) t"
    by (auto simp: parses_def)
  from assms have "tok_type (Parser_peek ps') = EOF"
    unfolding parse_def by (rule parse_fuel_at_marker)
  with wf tk show "p_current ps' = length (p_tokens ps') - 1" by (rule marker_is_last)
qed

lemma parse_total: "wf_parser ps \<Longrightarrow> \<exists>res. parse ps = Some res"
  using parse_parses [of ps] by (auto simp: parses_def)

lemma parse_fuel_independent:
  assumes "wf_parser ps" and "parse_fuel n ps = Some r"
  shows "parse ps = Some r"
proof -
  let ?N = "6 * length (p_tokens ps) + 2"
  from parse_total [OF assms(1)] obtain r' where r': "parse_fuel ?N ps = Some r'"
    by (auto simp: parse_def)
  have "r' = r"
  proof (cases "n \<le> ?N")
    case True
    from parse_fuel_mono [OF True, of ps] assms(2) r' show ?thesis by (simp add: res_le_def)
  next
    case False
    then have "?N \<le> n" by simp
    from parse_fuel_mono [OF this, of ps] assms(2) r' show ?thesis by (simp add: res_le_def)
  qed
  with r' show ?thesis by (simp add: parse_def)
qed


lemma source_tokenize_loop [simp]: "source (snd (tokenize_loop lx)) = source lx"
proof (induction lx rule: tokenize_loop.induct)
  case (1 lx)
  show ?case
  proof (cases "is_at_end lx")
    case True
    then show ?thesis by (subst tokenize_loop.simps) simp
  next
    case False
    obtain r lx1 where st: "tokenize_step lx = (r, lx1)" by (cases "tokenize_step lx")
    from source_tokenize_step [of lx] st have s1: "source lx1 = source lx" by simp
    show ?thesis
    proof (cases r)
      case (Inl e)
      with False st s1 show ?thesis by (subst tokenize_loop.simps) simp
    next
      case (Inr v)
      with False st have eq: "tokenize_loop lx = tokenize_loop lx1"
        by (subst tokenize_loop.simps) simp
      from "1.IH" [OF _ st [symmetric] Inr] False eq s1 show ?thesis by simp
    qed
  qed
qed

lemma source_tokenize [simp]: "source (snd (tokenize lx)) = source lx"
proof -
  let ?lx0 = "lx\<lparr>tokens := [], current := 0, line := 1, column := 1\<rparr>"
  obtain r lx1 where l: "tokenize_loop ?lx0 = (r, lx1)" by (cases "tokenize_loop ?lx0")
  from source_tokenize_loop [of ?lx0] l have "source lx1 = source lx" by simp
  with l show ?thesis by (cases r) (simp_all add: tokenize_def Let_def)
qed

lemma tokenize_reset:
  "tokenize lx = tokenize (Lexer_init (source lx))"
proof -
  have "lx\<lparr>tokens := [], current := 0, line := 1, column := 1\<rparr>
          = (Lexer_init (source lx))\<lparr>tokens := [], current := 0, line := 1, column := 1\<rparr>"
    by (cases lx) (simp add: Lexer_init_def)
  then show ?thesis by (simp only: tokenize_def)
qed

section \<open>Properties\<close>

text \<open>
  C1. The source text \<open>program p; var x:integer; begin x:=1 end.\<close> is accepted: the
  lexer returns its tokens and \<open>parse\<close> returns, for these tokens, the tree rooted
  \<open>S\<close> whose children are, in this order, \<open>program\<close>, \<open>id\<close>, \<open>;\<close>, \<open>D\<close>,
  \<open>begin\<close>, \<open>L\<close>, \<open>end\<close> and \<open>.\<close>; the subtree \<open>D\<close> holds \<open>var\<close> and one
  \<open>V\<close> group, which declares the identifier \<open>x\<close>.
\<close>

theorem grammar_acceptance_example:
  "\<exists>toks ps'.
     fst (tokenize (Lexer_init ''program p; var x:integer; begin x:=1 end.'')) = Inr toks
     \<and> parse (Parser_init toks)
       = Some (Inr (TreeNode ''S'' None
           [TreeNode ''program'' (Some (Token PROGRAM ''program'' 1 1)) [],
            TreeNode ''id'' (Some (Token IDENTIFIER ''p'' 1 9)) [],
            TreeNode '';'' (Some (Token SEMICOLON '';'' 1 10)) [],
            TreeNode ''D'' None
             [TreeNode ''var'' (Some (Token VAR ''var'' 1 12)) [],
              TreeNode ''V'' None
               [TreeNode ''I'' None
                 [TreeNode ''id'' (Some (Token IDENTIFIER ''x'' 1 16)) []],
                TreeNode '':'' (Some (Token COLON '':'' 1 17)) [],
                TreeNode ''T'' None
                 [TreeNode ''integer'' (Some (Token INTEGER ''integer'' 1 18)) []],
                TreeNode '';'' (Some (Token SEMICOLON '';'' 1 25)) []]],
            TreeNode ''begin'' (Some (Token BEGIN ''begin'' 1 27)) [],
            TreeNode ''L'' None
             [TreeNode ''C'' None
               [TreeNode ''A'' None
                 [TreeNode ''id'' (Some (Token IDENTIFIER ''x'' 1 33)) [],
                  TreeNode '':='' (Some (Token ASSIGN '':='' 1 34)) [],
                  TreeNode ''E'' None
                   [TreeNode ''num'' (Some (Token NUMBER ''1'' 1 36)) []]]]],
            TreeNode ''end'' (Some (Token END ''end'' 1 38)) [],
            TreeNode ''.'' (Some (Token DOT ''.'' 1 41)) []], ps'))"
proof -
  let ?toks = "[Token PROGRAM ''program'' 1 1, Token IDENTIFIER ''p'' 1 9,
      Token SEMICOLON '';'' 1 10, Token VAR ''var'' 1 12,
      Token IDENTIFIER ''x'' 1 16, Token COLON '':'' 1 17,
      Token INTEGER ''integer'' 1 18, Token SEMICOLON '';'' 1 25,
      Token BEGIN ''begin'' 1 27, Token IDENTIFIER ''x'' 1 33,
      Token ASSIGN '':='' 1 34, Token NUMBER ''1'' 1 36,
      Token END ''end'' 1 38, Token DOT ''.'' 1 41, Token EOF [] 1 42]"
  have l: "fst (tokenize (Lexer_init ''program p; var x:integer; begin x:=1 end.'')) = Inr ?toks"
    by code_simp
  have p: "map_option (map_sum id fst) (parse (Parser_init ?toks))
       = Some (Inr (TreeNode ''S'' None
           [TreeNode ''program'' (Some (Token PROGRAM ''program'' 1 1)) [],
            TreeNode ''id'' (Some (Token IDENTIFIER ''p'' 1 9)) [],
            TreeNode '';'' (Some (Token SEMICOLON '';'' 1 10)) [],
            TreeNode ''D'' None
             [TreeNode ''var'' (Some (Token VAR ''var'' 1 12)) [],
              TreeNode ''V'' None
               [TreeNode ''I'' None
                 [TreeNode ''id'' (Some (Token IDENTIFIER ''x'' 1 16)) []],
                TreeNode '':'' (Some (Token COLON '':'' 1 17)) [],
                TreeNode ''T'' None
                 [TreeNode ''integer'' (Some (Token INTEGER ''integer'' 1 18)) []],
                TreeNode '';'' (Some (Token SEMICOLON '';'' 1 25)) []]],
            TreeNode ''begin'' (Some (Token BEGIN ''begin'' 1 27)) [],
            TreeNode ''L'' None
             [TreeNode ''C'' None
               [TreeNode ''A'' None
                 [TreeNode ''id'' (Some (Token IDENTIFIER ''x'' 1 33)) [],
                  TreeNode '':='' (Some (Token ASSIGN '':='' 1 34)) [],
                  TreeNode ''E'' None
                   [TreeNode ''num'' (Some (Token NUMBER ''1'' 1 36)) []]]]],
            TreeNode ''end'' (Some (Token END ''end'' 1 38)) [],
            TreeNode ''.'' (Some (Token DOT ''.'' 1 41)) []]))"
    by code_simp
  from p obtain ps' where "parse (Parser_init ?toks)
       = Some (Inr (TreeNode ''S'' None
           [TreeNode ''program'' (Some (Token PROGRAM ''program'' 1 1)) [],
            TreeNode ''id'' (Some (Token IDENTIFIER ''p'' 1 9)) [],
            TreeNode '';'' (Some (Token SEMICOLON '';'' 1 10)) [],
            TreeNode ''D'' None
             [TreeNode ''var'' (Some (Token VAR ''var'' 1 12)) [],
              TreeNode ''V'' None
               [TreeNode ''I'' None
                 [TreeNode ''id'' (Some (Token IDENTIFIER ''x'' 1 16)) []],
                TreeNode '':'' (Some (Token COLON '':'' 1 17)) [],
                TreeNode ''T'' None
                 [TreeNode ''integer'' (Some (Token INTEGER ''integer'' 1 18)) []],
                TreeNode '';'' (Some (Token SEMICOLON '';'' 1 25)) []]],
            TreeNode ''begin'' (Some (Token BEGIN ''begin'' 1 27)) [],
            TreeNode ''L'' None
             [TreeNode ''C'' None
               [TreeNode ''A'' None
                 [TreeNode ''id'' (Some (Token IDENTIFIER ''x'' 1 33)) [],
                  TreeNode '':='' (Some (Token ASSIGN '':='' 1 34)) [],
                  TreeNode ''E'' None
                   [TreeNode ''num'' (Some (Token NUMBER ''1'' 1 36)) []]]]],
            TreeNode ''end'' (Some (Token END ''end'' 1 38)) [],
            TreeNode ''.'' (Some (Token DOT ''.'' 1 41)) []], ps'))"
    by (cases "parse (Parser_init ?toks)") (auto simp: map_sum_def split: sum.splits)
  with l show ?thesis by blast
qed

text \<open>
  C2. Parsed as an \<open>E\<close>, the tokens of \<open>2 + 3 * 4\<close> give, with any supply of six
  units of fuel or more, the node \<open>E\<close> that \<open>parse_E_expr\<close> wraps around its result;
  its child is the node of the binary operation, whose children are the number 2, the
  operator \<open>+\<close> and, on the right, the node of \<open>3 * 4\<close>.
\<close>

theorem expression_precedence_example:
  "\<exists>toks ps'.
     fst (tokenize (Lexer_init ''2 + 3 * 4'')) = Inr toks
     \<and> parse_E (6 + n) (Parser_init toks)
       = Some (Inr (TreeNode ''E'' None
           [TreeNode ''E'' None
             [TreeNode ''num'' (Some (Token NUMBER ''2'' 1 1)) [],
              TreeNode ''+'' (Some (Token PLUS ''+'' 1 3)) [],
              TreeNode ''E'' None
               [TreeNode ''num'' (Some (Token NUMBER ''3'' 1 5)) [],
                TreeNode ''*'' (Some (Token MULTIPLY ''*'' 1 7)) [],
                TreeNode ''num'' (Some (Token NUMBER ''4'' 1 9)) []]]], ps'))"
proof -
  let ?toks = "[Token NUMBER ''2'' 1 1, Token PLUS ''+'' 1 3, Token NUMBER ''3'' 1 5,
      Token MULTIPLY ''*'' 1 7, Token NUMBER ''4'' 1 9, Token EOF [] 1 10]"
  let ?ps' = "\<lparr>p_tokens =
           [Token NUMBER ''2'' 1 1, Token PLUS ''+'' 1 3,
            Token NUMBER ''3'' 1 5, Token MULTIPLY ''*'' 1 7,
            Token NUMBER ''4'' 1 9, Token EOF ''$'' (- 1) (- 1)],
           p_current = 5\<rparr>"
  have l: "fst (tokenize (Lexer_init ''2 + 3 * 4'')) = Inr ?toks"
    by code_simp
  have p: "parse_E 6 (Parser_init ?toks)
       = Some (Inr (TreeNode ''E'' None
           [TreeNode ''E'' None
             [TreeNode ''num'' (Some (Token NUMBER ''2'' 1 1)) [],
              TreeNode ''+'' (Some (Token PLUS ''+'' 1 3)) [],
              TreeNode ''E'' None
               [TreeNode ''num'' (Some (Token NUMBER ''3'' 1 5)) [],
                TreeNode ''*'' (Some (Token MULTIPLY ''*'' 1 7)) [],
                TreeNode ''num'' (Some (Token NUMBER ''4'' 1 9)) []]]], ?ps'))"
    by code_simp
  have "res_le (parse_E 6 (Parser_init ?toks)) (parse_E (6 + n) (Parser_init ?toks))"
    by (rule parse_E_mono) simp
  with p have "parse_E (6 + n) (Parser_init ?toks) = parse_E 6 (Parser_init ?toks)"
    by (simp add: res_le_def)
  with p l show ?thesis by (intro exI [of _ ?toks] exI [of _ ?ps']) simp
qed

text \<open>
  C3. Claimed: scanning a terminated string literal with \<open>k\<close> embedded newlines advances
  the line counter by exactly \<open>k\<close>. The code counts every newline of a literal twice
  (once in \<open>scan_string\<close>, once more in \<open>advance\<close>): for the input made of
  the literal \<open>a\<close>, newline, \<open>b\<close> between double quotes, a space and \<open>x\<close>, whose
  literal starts on line 1 and holds one newline, the identifier after the literal is
  reported on line 3, not on line 2.
\<close>

theorem string_newline_counted_twice:
  "fst (tokenize (Lexer_init ([CHR 0x22] @ ''a'' @ [CHR 0x0A] @ ''b'' @ [CHR 0x22] @ '' x'')))
     = Inr [Token STRING (''a'' @ [CHR 0x0A] @ ''b'') 3 0,
            Token IDENTIFIER ''x'' 3 4, Token EOF [] 3 5]"
  by code_simp

text \<open>
  C4. For every parser with a token list that is not empty (the constructor always appends
  the end marker) and every expected kind: if the current token is of the expected kind,
  \<open>expect\<close> returns it, over the same token list and with the cursor moved as
  \<open>advance\<close> moves it; if it is not, \<open>expect\<close> raises a \<open>SyntaxError\<close> that
  carries the current token (with its kind, value and line) and a message naming the
  expected kind and the kind found, and the text of the exception gives the kind found and
  its line.
\<close>

theorem expect_returns_or_raises:
  assumes "p_tokens ps \<noteq> []"
  shows "(p_current ps < length (p_tokens ps) \<longrightarrow> Parser_peek ps = p_tokens ps ! p_current ps)
       \<and> (tok_type (Parser_peek ps) = k \<longrightarrow>
            expect k ps = Some (Inr (Parser_peek ps, snd (Parser_advance ps)))
            \<and> p_tokens (snd (Parser_advance ps)) = p_tokens ps
            \<and> p_current (snd (Parser_advance ps))
                = (if p_current ps < length (p_tokens ps) - 1 then p_current ps + 1
                   else p_current ps))
       \<and> (tok_type (Parser_peek ps) \<noteq> k \<longrightarrow>
            (\<exists>e. expect k ps = Some (Inl e)
               \<and> syn_token e = Some (Parser_peek ps)
               \<and> syn_message e
                   = ''Esperado '' @ [CHR 0x27] @ TokenType_value k @ [CHR 0x27]
                     @ '', encontrado '' @ [CHR 0x27]
                     @ TokenType_value (tok_type (Parser_peek ps)) @ [CHR 0x27]
               \<and> SyntaxError_str e
                   = ''Erro sint'' @ [CHR 0xE1] @ ''tico: '' @ syn_message e
                     @ '' (Token: '' @ TokenType_value (tok_type (Parser_peek ps))
                     @ '', Linha: '' @ str_int (tok_line (Parser_peek ps)) @ '')''))"
  by (auto simp: expect_def Let_def raise_def return_def Parser_advance_def Parser_peek_def
        SyntaxError_str_def)

text \<open>
  Witness for C4: a parser for the single token \<open>program\<close>, asked for \<open>program\<close> and
  for \<open>var\<close>.
\<close>

theorem expect_returns_or_raises_witness:
  "Parser_peek (Parser_init [Token PROGRAM ''program'' 1 1]) = Token PROGRAM ''program'' 1 1
   \<and> expect PROGRAM (Parser_init [Token PROGRAM ''program'' 1 1])
     = Some (Inr (Token PROGRAM ''program'' 1 1,
                  \<lparr>p_tokens = [Token PROGRAM ''program'' 1 1, Token EOF ''$'' (- 1) (- 1)],
                   p_current = 1\<rparr>))
   \<and> (\<exists>e. expect VAR (Parser_init [Token PROGRAM ''program'' 1 1]) = Some (Inl e)
        \<and> syn_token e = Some (Token PROGRAM ''program'' 1 1)
        \<and> syn_message e = ''Esperado '' @ [CHR 0x27] @ ''var'' @ [CHR 0x27]
                           @ '', encontrado '' @ [CHR 0x27] @ ''program'' @ [CHR 0x27]
        \<and> SyntaxError_str e
            = ''Erro sint'' @ [CHR 0xE1] @ ''tico: Esperado '' @ [CHR 0x27] @ ''var'' @ [CHR 0x27]
              @ '', encontrado '' @ [CHR 0x27] @ ''program'' @ [CHR 0x27]
              @ '' (Token: program, Linha: 1)'')"
proof -
  let ?ps = "Parser_init [Token PROGRAM ''program'' 1 1]"
  have ne: "p_tokens ?ps \<noteq> []" by (simp add: Parser_init_def)
  have pk: "Parser_peek ?ps = Token PROGRAM ''program'' 1 1"
    by (simp add: Parser_init_def Parser_peek_def)
  have adv: "snd (Parser_advance ?ps)
      = \<lparr>p_tokens = [Token PROGRAM ''program'' 1 1, Token EOF ''$'' (- 1) (- 1)], p_current = 1\<rparr>"
    by (simp add: Parser_init_def Parser_advance_def Parser_peek_def)
  have s1: "str_int 1 = ''1''" by code_simp
  from expect_returns_or_raises [OF ne, of PROGRAM] pk adv
  have a: "expect PROGRAM ?ps = Some (Inr (Token PROGRAM ''program'' 1 1,
                  \<lparr>p_tokens = [Token PROGRAM ''program'' 1 1, Token EOF ''$'' (- 1) (- 1)],
                   p_current = 1\<rparr>))" by simp
  from expect_returns_or_raises [OF ne, of VAR] pk s1
  have b: "\<exists>e. expect VAR ?ps = Some (Inl e)
        \<and> syn_token e = Some (Token PROGRAM ''program'' 1 1)
        \<and> syn_message e = ''Esperado '' @ [CHR 0x27] @ ''var'' @ [CHR 0x27]
                           @ '', encontrado '' @ [CHR 0x27] @ ''program'' @ [CHR 0x27]
        \<and> SyntaxError_str e
            = ''Erro sint'' @ [CHR 0xE1] @ ''tico: Esperado '' @ [CHR 0x27] @ ''var'' @ [CHR 0x27]
              @ '', encontrado '' @ [CHR 0x27] @ ''program'' @ [CHR 0x27]
              @ '' (Token: program, Linha: 1)''" by clarsimp
  from pk a b show ?thesis by blast
qed

text \<open>
  C5. An input whose main loop arrives at an opening double quote with no closing quote in
  the rest of the input makes \<open>tokenize\<close> raise the lexical error
  \<open>String nao terminada\<close> (with a tilde on the a) and return no token list; the lexer
  stops at the end of the input. The error carries the lexer's counters, which are not the
  position of the end of the input: the column is the one reached there, but the line is
  the line of the opening quote plus twice the number of newlines of the literal, as
  \<open>scan_string\<close> counts each newline and \<open>advance\<close> counts it again.
\<close>

theorem unterminated_string_raises:
  assumes "run_steps k (lx\<lparr>tokens := [], current := 0, line := 1, column := 1\<rparr>) = Some lx1"
    and "peek lx1 = CHR 0x22"
    and "CHR 0x22 \<notin> set (drop (current lx1 + 1) (source lx1))"
  shows "fst (tokenize lx)
           = Inl (LexicalError (''String n'' @ [CHR 0xE3] @ ''o terminada'')
                   (line lx1 + 2 * int (count_list (drop (current lx1 + 1) (source lx1)) (CHR 0x0A)))
                   (if CHR 0x0A \<in> set (drop (current lx1 + 1) (source lx1))
                    then 1 + int (length (takeWhile (\<lambda>c. c \<noteq> CHR 0x0A)
                                            (rev (drop (current lx1 + 1) (source lx1)))))
                    else column lx1 + 1 + int (length (drop (current lx1 + 1) (source lx1)))))
         \<and> is_at_end (snd (tokenize lx))"
proof -
  have ne: "\<not> is_at_end lx1" using assms(2) by (auto simp: peek_def split: if_splits)
  let ?a = "snd (advance lx1)"
  let ?lx2 = "snd (scan_string_loop [] ?a)"
  have cur: "current ?a = current lx1 + 1" "source ?a = source lx1"
    using ne by (simp_all add: advance_def Let_def)
  have pos: "line ?a = line lx1" "column ?a = column lx1 + 1"
    using ne assms(2) by (simp_all add: advance_def Let_def peek_def)
  have nq: "CHR 0x22 \<notin> set (drop (current ?a) (source ?a))"
    using assms(3) by (simp add: cur)
  have end2: "is_at_end ?lx2"
    using nq by (rule scan_string_loop_unterminated)
  let ?e = "LexicalError (''String n'' @ [CHR 0xE3] @ ''o terminada'') (line ?lx2) (column ?lx2)"
  have "scan_string ?a = (Inl ?e, ?lx2)"
    using end2 by (simp add: scan_string_def Let_def)
  then have "tokenize_step lx1 = (Inl ?e, ?lx2)"
    using assms(2) by (simp add: tokenize_step_def)
  then have "tokenize_loop lx1 = (Inl ?e, ?lx2)"
    using ne by (subst tokenize_loop.simps) simp
  with run_steps_tokenize_loop [OF assms(1)]
  have t: "tokenize lx = (Inl ?e, ?lx2)" by (simp add: tokenize_def)
  from scan_string_loop_unterminated_pos [OF nq, of "[]"]
  have "line ?lx2 = line lx1 + 2 * int (count_list (drop (current lx1 + 1) (source lx1)) (CHR 0x0A))"
    and "column ?lx2
           = (if CHR 0x0A \<in> set (drop (current lx1 + 1) (source lx1))
              then 1 + int (length (takeWhile (\<lambda>c. c \<noteq> CHR 0x0A)
                                      (rev (drop (current lx1 + 1) (source lx1)))))
              else column lx1 + 1 + int (length (drop (current lx1 + 1) (source lx1))))"
    unfolding cur pos by simp_all
  with t end2 show ?thesis by simp
qed

text \<open>
  Witness for C5: the two-line input double quote, \<open>ab\<close>, newline, \<open>cd\<close> ends on
  line 2, column 3; the error is reported on line 3, column 3.
\<close>

theorem unterminated_string_raises_witness:
  "run_steps 0 ((Lexer_init ([CHR 0x22] @ ''ab'' @ [CHR 0x0A] @ ''cd''))
                  \<lparr>tokens := [], current := 0, line := 1, column := 1\<rparr>)
     = Some (Lexer_init ([CHR 0x22] @ ''ab'' @ [CHR 0x0A] @ ''cd''))
   \<and> peek (Lexer_init ([CHR 0x22] @ ''ab'' @ [CHR 0x0A] @ ''cd'')) = CHR 0x22
   \<and> fst (tokenize (Lexer_init ([CHR 0x22] @ ''ab'' @ [CHR 0x0A] @ ''cd'')))
       = Inl (LexicalError (''String n'' @ [CHR 0xE3] @ ''o terminada'') 3 3)"
proof -
  let ?lx = "Lexer_init ([CHR 0x22] @ ''ab'' @ [CHR 0x0A] @ ''cd'')"
  have r: "run_steps 0 (?lx\<lparr>tokens := [], current := 0, line := 1, column := 1\<rparr>) = Some ?lx"
    by (simp add: Lexer_init_def)
  have p: "peek ?lx = CHR 0x22" by (simp add: Lexer_init_def peek_def is_at_end_def)
  have n: "CHR 0x22 \<notin> set (drop (current ?lx + 1) (source ?lx))" by (simp add: Lexer_init_def)
  from unterminated_string_raises [OF r p n]
  have "fst (tokenize ?lx) = Inl (LexicalError (''String n'' @ [CHR 0xE3] @ ''o terminada'') 3 3)"
    by (simp add: Lexer_init_def)
  with r p show ?thesis by simp
qed




text \<open>
  C7. When \<open>parse\<close> returns a tree, every token carried by a node of the tree is a
  token of the list given to the constructor, is not the end marker nor of kind
  \<open>NEWLINE\<close>, and lies before the final position of the cursor, so it has been consumed.
\<close>

theorem leaves_are_input_tokens:
  assumes "parse (Parser_init toks) = Some (Inr (tree, ps'))"
  shows "\<forall>x \<in> set (tree_tokens tree).
           x \<in> set toks \<and> tok_type x \<noteq> EOF \<and> tok_type x \<noteq> NEWLINE
           \<and> x \<in> set (take (p_current ps') (p_tokens ps'))"
proof
  fix x assume x: "x \<in> set (tree_tokens tree)"
  let ?real = "filter (\<lambda>t. tok_type t \<noteq> NEWLINE \<and> tok_type t \<noteq> EOF) toks"
  note s = parse_success [OF assms]
  have tk: "p_tokens ps' = ?real @ [Token EOF ''$'' (- 1) (- 1)]"
    using s(2) by (simp add: Parser_init_def)
  from s(3) x have "x \<in> set (p_tokens (Parser_init toks))" and ne: "tok_type x \<noteq> EOF"
    by (auto simp: real_leaves_def)
  then have xr: "x \<in> set ?real" by (auto simp: Parser_init_def)
  have "take (p_current ps') (p_tokens ps') = ?real"
    using s(4) tk by simp
  with xr ne show "x \<in> set toks \<and> tok_type x \<noteq> EOF \<and> tok_type x \<noteq> NEWLINE
           \<and> x \<in> set (take (p_current ps') (p_tokens ps'))" by simp
qed

text \<open>Witness for C7: the tokens of \<open>program p; begin x:=1 end.\<close>\<close>

theorem leaves_are_input_tokens_witness:
  "\<exists>tree ps'.
     parse (Parser_init
        [Token PROGRAM ''program'' 1 1, Token IDENTIFIER ''p'' 1 9,
         Token SEMICOLON '';'' 1 10, Token BEGIN ''begin'' 1 12,
         Token IDENTIFIER ''x'' 1 18, Token ASSIGN '':='' 1 19,
         Token NUMBER ''1'' 1 21, Token END ''end'' 1 23, Token DOT ''.'' 1 26,
         Token EOF [] 1 27]) = Some (Inr (tree, ps'))
     \<and> tree_tokens tree
         = [Token PROGRAM ''program'' 1 1, Token IDENTIFIER ''p'' 1 9,
            Token SEMICOLON '';'' 1 10, Token BEGIN ''begin'' 1 12,
            Token IDENTIFIER ''x'' 1 18, Token ASSIGN '':='' 1 19,
            Token NUMBER ''1'' 1 21, Token END ''end'' 1 23, Token DOT ''.'' 1 26]
     \<and> (\<forall>x \<in> set (tree_tokens tree).
           x \<in> set [Token PROGRAM ''program'' 1 1, Token IDENTIFIER ''p'' 1 9,
                     Token SEMICOLON '';'' 1 10, Token BEGIN ''begin'' 1 12,
                     Token IDENTIFIER ''x'' 1 18, Token ASSIGN '':='' 1 19,
                     Token NUMBER ''1'' 1 21, Token END ''end'' 1 23, Token DOT ''.'' 1 26,
                     Token EOF [] 1 27]
           \<and> tok_type x \<noteq> EOF)"
proof -
  let ?toks = "[Token PROGRAM ''program'' 1 1, Token IDENTIFIER ''p'' 1 9,
         Token SEMICOLON '';'' 1 10, Token BEGIN ''begin'' 1 12,
         Token IDENTIFIER ''x'' 1 18, Token ASSIGN '':='' 1 19,
         Token NUMBER ''1'' 1 21, Token END ''end'' 1 23, Token DOT ''.'' 1 26,
         Token EOF [] 1 27]"
  have "map_option (map_sum (\<lambda>e. ()) (\<lambda>p. tree_tokens (fst p))) (parse (Parser_init ?toks))
          = Some (Inr [Token PROGRAM ''program'' 1 1, Token IDENTIFIER ''p'' 1 9,
            Token SEMICOLON '';'' 1 10, Token BEGIN ''begin'' 1 12,
            Token IDENTIFIER ''x'' 1 18, Token ASSIGN '':='' 1 19,
            Token NUMBER ''1'' 1 21, Token END ''end'' 1 23, Token DOT ''.'' 1 26])"
    by code_simp
  then obtain tree ps' where p: "parse (Parser_init ?toks) = Some (Inr (tree, ps'))"
    and tt: "tree_tokens tree
         = [Token PROGRAM ''program'' 1 1, Token IDENTIFIER ''p'' 1 9,
            Token SEMICOLON '';'' 1 10, Token BEGIN ''begin'' 1 12,
            Token IDENTIFIER ''x'' 1 18, Token ASSIGN '':='' 1 19,
            Token NUMBER ''1'' 1 21, Token END ''end'' 1 23, Token DOT ''.'' 1 26]"
    by (cases "parse (Parser_init ?toks)") (auto simp: map_sum_def split: sum.splits)
  from leaves_are_input_tokens [OF p]
  have "\<forall>x \<in> set (tree_tokens tree). x \<in> set ?toks \<and> tok_type x \<noteq> EOF" by blast
  with p tt show ?thesis by blast
qed

text \<open>
  C8. \<open>tokenize\<close> resets the lexer before it scans, so its result and the state it
  leaves depend on the source text only, whatever state the lexer object was in; called a
  second time on the same object it returns what it returned the first time, and the
  tokens and the tree (or the error) of the two stages run on a used lexer are those of a
  fresh run on the same text.
\<close>

theorem analysis_deterministic:
  "tokenize lx = tokenize (Lexer_init (source lx))
   \<and> tokenize (snd (tokenize lx)) = tokenize lx
   \<and> (case fst (tokenize (snd (tokenize lx))) of
        Inl e \<Rightarrow> Inl e | Inr toks \<Rightarrow> Inr (parse (Parser_init toks)))
     = (case fst (tokenize (Lexer_init (source lx))) of
        Inl e \<Rightarrow> Inl e | Inr toks \<Rightarrow> Inr (parse (Parser_init toks)))"
proof -
  have a: "tokenize lx = tokenize (Lexer_init (source lx))" by (rule tokenize_reset)
  have "tokenize (snd (tokenize lx)) = tokenize (Lexer_init (source (snd (tokenize lx))))"
    by (rule tokenize_reset)
  also have "\<dots> = tokenize (Lexer_init (source lx))" by (simp only: source_tokenize)
  also have "\<dots> = tokenize lx" by (rule a [symmetric])
  finally have b: "tokenize (snd (tokenize lx)) = tokenize lx" .
  show ?thesis unfolding b using a by simp
qed





end
